theory Spec2Isabelle
  imports Main "HOL-Library.Word" "HOL-Library.Signed_Division" "HOL-Library.Char_ord"
begin

unbundle bit_operations_syntax

section \<open>Machine types and constants of main.c\<close>

text \<open>
  The target is a Cortex-M3: \<open>int\<close>, \<open>unsigned int\<close>, \<open>unsigned long\<close> and
  \<open>uint32_t\<close> are 32 bits wide, \<open>unsigned char\<close> is 8 bits wide. A value whose
  arithmetic can leave the 32-bit range (the generator's seed, a sample, the filter's
  running sum, a run-time counter) is a \<open>32 word\<close>, read as two's complement through
  \<open>sint\<close> where the C type is signed. Loop counters, the window size and the filter's
  positions stay far inside the range (they are bounded by the buffer sizes, and the
  model faults before they could leave them), so they are \<open>int\<close> or \<open>nat\<close>.
  C's \<open>/\<close> and \<open>%\<close> on \<open>int\<close> truncate towards zero: \<open>sdiv\<close> and \<open>smod\<close>.
\<close>

type_synonym u32 = "32 word"
type_synonym c_int = "32 word"
type_synonym u8 = "8 word"

abbreviation (input) MIN_TEMPERATURE :: int where "MIN_TEMPERATURE \<equiv> 15"
abbreviation (input) TEMPERATURE_RANGE :: int where "TEMPERATURE_RANGE \<equiv> 20"
abbreviation (input) MAX_HEIGHT :: int where "MAX_HEIGHT \<equiv> 15"
abbreviation (input) DISPLAY_BUFFER_OFFSET :: nat where "DISPLAY_BUFFER_OFFSET \<equiv> 96"
abbreviation (input) Y_AXIS_HEIGHT :: nat where "Y_AXIS_HEIGHT \<equiv> 16"
abbreviation (input) X_AXIS_POSITION :: int where "X_AXIS_POSITION \<equiv> 15"
abbreviation (input) INPUT_BUFFER_SIZE :: nat where "INPUT_BUFFER_SIZE \<equiv> 10"
abbreviation (input) MAX_WINDOW_SIZE :: nat where "MAX_WINDOW_SIZE \<equiv> 100"
abbreviation (input) MIN_WINDOW_SIZE :: nat where "MIN_WINDOW_SIZE \<equiv> 10"

section \<open>The sample source: \<open>pseudorandom\<close> and \<open>vSimulateTemperatureSensorTask\<close>\<close>

text \<open>
  \<open>pseudorandom\<close> keeps its seed in a \<open>static unsigned int\<close>; the model passes the
  seed in and returns the new seed with the result. The result
  \<open>(seed >> 16) & 0x7FFF\<close> is below \<open>2 ^ 15\<close>, so its conversion to \<open>int\<close> is
  its unsigned value.
\<close>

definition initial_seed :: u32 where
  "initial_seed = 6789"

definition pseudorandom :: "u32 \<Rightarrow> u32 \<times> int" where
  "pseudorandom seed =
     (let seed' = seed * 1103515245 + 12345
      in (seed', uint (drop_bit 16 seed' AND 0x7FFF)))"

text \<open>The results of the first \<open>n\<close> calls, starting from a seed.\<close>

fun pseudorandom_run :: "nat \<Rightarrow> u32 \<Rightarrow> int list" where
  "pseudorandom_run 0 seed = []"
| "pseudorandom_run (Suc n) seed =
     (let (seed', r) = pseudorandom seed in r # pseudorandom_run n seed')"

text \<open>
  One pass of the sensor task's loop: the new seed and the temperature it sends to the
  raw queue.
\<close>

definition sensor_iteration :: "u32 \<Rightarrow> u32 \<times> int" where
  "sensor_iteration seed =
     (let (seed', r) = pseudorandom seed
      in (seed', MIN_TEMPERATURE + (r smod (TEMPERATURE_RANGE + 1))))"

text \<open>The first \<open>n\<close> temperatures the task sends, starting from a seed.\<close>

fun sensor_run :: "nat \<Rightarrow> u32 \<Rightarrow> int list" where
  "sensor_run 0 seed = []"
| "sensor_run (Suc n) seed =
     (let (seed', t) = sensor_iteration seed in t # sensor_run n seed')"

section \<open>The adaptive filter: \<open>vLowPassFilterTask\<close>\<close>

text \<open>
  The task's locals are the filter state. The buffer is the block of
  \<open>MAX_WINDOW_SIZE\<close> ints that \<open>pvPortMalloc\<close> returned; the task does not write it
  before its loop, so its first contents are whatever the block held: \<open>filter_init\<close>
  takes them as the argument \<open>heap\<close>. The task where the allocation failed suspends
  itself and is not modelled.

  A read or write outside the block, and a division or remainder by zero, are undefined
  behaviour in C; the model stops there with a \<open>fault\<close>.
\<close>

datatype fault = Division_By_Zero | Buffer_Overrun

record filter_state =
  window_size :: int
  buffer :: "c_int list"
  index :: int
  sum_val :: c_int
  count :: int

definition filter_init :: "int \<Rightarrow> c_int list \<Rightarrow> filter_state" where
  "filter_init shared heap =
     \<lparr>window_size = shared, buffer = heap, index = 0, sum_val = 0, count = 0\<rparr>"

text \<open>
  The head of the loop: \<open>new_window_size\<close> is the value read from the shared
  \<open>filter_window_size\<close>. The result is the state and the text sent to the UART.
\<close>

definition check_reconfig :: "int \<Rightarrow> filter_state \<Rightarrow> filter_state \<times> string" where
  "check_reconfig new_window_size st =
     (if new_window_size \<noteq> window_size st
      then (\<lparr>window_size = new_window_size, buffer = replicate MAX_WINDOW_SIZE 0,
             index = 0, sum_val = 0, count = 0\<rparr>,
            ''\<newline>Filter window size updated.\<newline>'')
      else (st, []))"

text \<open>
  The body run for a received sample, up to the update of \<open>count\<close>. The sum wraps as
  a 32-bit value.
\<close>

definition update_average :: "c_int \<Rightarrow> filter_state \<Rightarrow> fault + filter_state" where
  "update_average raw_temperature st =
     (if index st < 0 \<or> int (length (buffer st)) \<le> index st then Inl Buffer_Overrun
      else if window_size st = 0 then Inl Division_By_Zero
      else Inr (st\<lparr>sum_val := sum_val st - buffer st ! nat (index st) + raw_temperature,
                   buffer := (buffer st)[nat (index st) := raw_temperature],
                   index := (index st + 1) smod window_size st,
                   count := (if count st < window_size st then count st + 1 else count st)\<rparr>))"

text \<open>The filtered value \<open>sum / count\<close>, C's truncating division.\<close>

definition emit :: "filter_state \<Rightarrow> fault + c_int" where
  "emit st =
     (if count st = 0 then Inl Division_By_Zero
      else Inr (word_of_int (sint (sum_val st) sdiv count st)))"

text \<open>
  One iteration of the loop that receives a sample (\<open>xQueueReceive\<close> waits with
  \<open>portMAX_DELAY\<close> until there is one): the new state, the text sent to the UART
  and the value sent to the filtered queue.
\<close>

definition filter_iteration ::
  "int \<Rightarrow> c_int \<Rightarrow> filter_state \<Rightarrow> fault + (filter_state \<times> string \<times> c_int)" where
  "filter_iteration shared raw_temperature st =
     (let (st1, notice) = check_reconfig shared st
      in case update_average raw_temperature st1 of
           Inl e \<Rightarrow> Inl e
         | Inr st2 \<Rightarrow>
             (case emit st2 of
                Inl e \<Rightarrow> Inl e
              | Inr filtered_value \<Rightarrow> Inr (st2, notice, filtered_value)))"

text \<open>
  The loop over a list of events, each the shared window size read at the head of an
  iteration and the sample received in it; the result is the last state and the values
  sent to the filtered queue, in order.
\<close>

fun run_filter ::
  "filter_state \<Rightarrow> (int \<times> c_int) list \<Rightarrow> fault + (filter_state \<times> c_int list)" where
  "run_filter st [] = Inr (st, [])"
| "run_filter st ((shared, raw_temperature) # evs) =
     (case filter_iteration shared raw_temperature st of
        Inl e \<Rightarrow> Inl e
      | Inr (st', notice, y) \<Rightarrow>
          (case run_filter st' evs of
             Inl e \<Rightarrow> Inl e
           | Inr (st'', ys) \<Rightarrow> Inr (st'', y # ys)))"

text \<open>The last \<open>n\<close> elements of a list (all of it when it is shorter).\<close>

definition last_n :: "nat \<Rightarrow> 'a list \<Rightarrow> 'a list" where
  "last_n n xs = drop (length xs - n) xs"

text \<open>The values the loop sends to the filtered queue.\<close>

definition filter_outputs :: "filter_state \<Rightarrow> (int \<times> c_int) list \<Rightarrow> fault + c_int list" where
  "filter_outputs st evs = map_sum id snd (run_filter st evs)"

text \<open>The state the loop's head leaves when the window size has changed.\<close>

definition reset_state :: "int \<Rightarrow> filter_state" where
  "reset_state w =
     \<lparr>window_size = w, buffer = replicate MAX_WINDOW_SIZE 0, index = 0, sum_val = 0, count = 0\<rparr>"

text \<open>
  The states the task can be in at the head of its loop: the state it starts in, for
  any shared window size and any contents of the allocated block, and every state an
  iteration leaves.
\<close>

inductive reachable :: "filter_state \<Rightarrow> bool" where
  start: "reachable (filter_init shared heap)"
| iteration:
    "reachable st \<Longrightarrow> filter_iteration shared raw_temperature st = Inr (st', notice, y)
       \<Longrightarrow> reachable st'"

subsection \<open>What the filter is to compute\<close>

text \<open>
  \<open>window W n xs\<close> is the last \<open>min n W\<close> of the first \<open>n\<close> samples \<open>xs\<close>.
  \<open>window_avg W h\<close> is the filtered value for the samples \<open>h\<close> received since the
  reset: the 32-bit sum of the last \<open>W\<close> of them, divided as C divides by how many
  they are.
\<close>

definition window :: "nat \<Rightarrow> nat \<Rightarrow> 'a list \<Rightarrow> 'a list" where
  "window W n xs = last_n (min n W) (take n xs)"

definition window_avg :: "nat \<Rightarrow> c_int list \<Rightarrow> c_int" where
  "window_avg W h = word_of_int (sint (sum_list (last_n W h)) sdiv int (min (length h) W))"

text \<open>
  The specification's formula for the \<open>n\<close>-th output, on the samples' values:
  \<open>floor(sum(last min(n, W) samples) / min(n, W))\<close>. On \<open>int\<close>, \<open>div\<close> is the
  floor of the quotient.
\<close>

definition spec_filter_output :: "nat \<Rightarrow> int list \<Rightarrow> nat \<Rightarrow> int" where
  "spec_filter_output W samples n = sum_list (window W n samples) div int (min n W)"

text \<open>
  The ring buffer's invariant, for a window size \<open>W\<close> and the samples \<open>hist\<close>
  received since the last reset: the write position and the count follow the number of
  samples, the sum is that of the last \<open>W\<close> samples, sample \<open>k\<close> of the last \<open>W\<close>
  is in slot \<open>k mod W\<close>, and the slots not written since the reset hold 0.
\<close>

definition ring_inv :: "nat \<Rightarrow> c_int list \<Rightarrow> filter_state \<Rightarrow> bool" where
  "ring_inv W hist st \<longleftrightarrow>
     window_size st = int W \<and> length (buffer st) = 100
     \<and> index st = int (length hist mod W)
     \<and> count st = int (min (length hist) W)
     \<and> sum_val st = sum_list (last_n W hist)
     \<and> (\<forall>k < length hist. length hist - k \<le> W \<longrightarrow> buffer st ! (k mod W) = hist ! k)
     \<and> (\<forall>j < 100. min (length hist) W \<le> j \<longrightarrow> buffer st ! j = 0)"

section \<open>The command interface: \<open>stringToInt\<close> and \<open>vUARTReaderTask\<close>\<close>

abbreviation (input) NUL :: char where "NUL \<equiv> CHR 0x00"
abbreviation (input) CR :: char where "CR \<equiv> CHR 0x0D"
abbreviation (input) LF :: char where "LF \<equiv> CHR 0x0A"

text \<open>
  A C string in a character array is the characters before the first NUL.
\<close>

definition c_string :: "char list \<Rightarrow> string" where
  "c_string arr = takeWhile (\<lambda>c. c \<noteq> NUL) arr"

text \<open>
  \<open>stringToInt\<close> on the characters of its argument, the accumulator \<open>value\<close> being a
  32-bit \<open>int\<close>.
\<close>

fun stringToInt_loop :: "c_int \<Rightarrow> string \<Rightarrow> int" where
  "stringToInt_loop v [] = sint v"
| "stringToInt_loop v (c # cs) =
     (if c < CHR ''0'' \<or> CHR ''9'' < c then - 1
      else stringToInt_loop (v * 10 + word_of_int (of_char c - of_char CHR ''0'')) cs)"

definition stringToInt :: "string \<Rightarrow> int" where
  "stringToInt str = stringToInt_loop 0 str"

text \<open>
  The task's locals: the array \<open>inputBuffer\<close> of \<open>INPUT_BUFFER_SIZE\<close> characters and
  \<open>inputIndex\<close>, the number of characters held (the source compares it with a
  \<open>size_t\<close>, so as an unsigned number). The array is not initialised: \<open>uart_init\<close>
  takes its first contents as an argument. The shared \<open>filter_window_size\<close> is
  passed along with the locals; the program initialises it to 5.
\<close>

record uart_state =
  inputBuffer :: "char list"
  inputIndex :: nat

definition filter_window_size_init :: int where
  "filter_window_size_init = 5"

definition uart_init :: "char list \<Rightarrow> uart_state \<times> int" where
  "uart_init stack = (\<lparr>inputBuffer = stack, inputIndex = 0\<rparr>, filter_window_size_init)"

text \<open>The texts the task sends.\<close>

definition msg_too_long :: string where
  "msg_too_long = LF # ''Very long entry. Try again.'' @ [CR, LF]"

definition msg_filter_now :: "string \<Rightarrow> string" where
  "msg_filter_now digits = LF # '' Filter now N = '' @ digits @ [CR, LF]"

definition msg_invalid :: string where
  "msg_invalid = LF # '' Invalid N (10-100).'' @ [CR, LF]"

definition msg_empty :: string where
  "msg_empty = LF # '' Empty buffer.'' @ [CR, LF]"

definition msg_non_numeric :: string where
  "msg_non_numeric = LF # '' Non numeric character.'' @ [CR, LF]"

text \<open>The test \<open>c >= '0' && c <= '9'\<close>.\<close>

definition is_digit :: "char \<Rightarrow> bool" where
  "is_digit c \<longleftrightarrow> CHR ''0'' \<le> c \<and> c \<le> CHR ''9''"

text \<open>
  One pass of the loop in which a character \<open>c\<close> is available: the new locals, the
  new shared window size and the text sent, which starts with the echo of \<open>c\<close>.
  \<open>inputIndex\<close> stays at most 9 (see \<open>uart_run_index\<close> below), so every array
  access is inside the array.
\<close>

definition uart_reader_step ::
  "char \<Rightarrow> uart_state \<times> int \<Rightarrow> (uart_state \<times> int) \<times> string" where
  "uart_reader_step c s =
     (let st = fst s; filter_window_size = snd s in
      if is_digit c then
        (if inputIndex st < INPUT_BUFFER_SIZE - 1
         then ((st\<lparr>inputBuffer := (inputBuffer st)[inputIndex st := c],
                    inputIndex := inputIndex st + 1\<rparr>, filter_window_size), [c])
         else ((st\<lparr>inputIndex := 0\<rparr>, filter_window_size), [c] @ msg_too_long))
      else if c = CR \<or> c = LF then
        (let terminated = (inputBuffer st)[inputIndex st := NUL] in
         if inputIndex st > 0 then
           (let newN = stringToInt (c_string terminated) in
            if int MIN_WINDOW_SIZE \<le> newN \<and> newN \<le> int MAX_WINDOW_SIZE
            then ((\<lparr>inputBuffer = terminated, inputIndex = 0\<rparr>, newN),
                  [c] @ [CR, LF] @ msg_filter_now (c_string terminated))
            else ((\<lparr>inputBuffer = terminated, inputIndex = 0\<rparr>, filter_window_size),
                  [c] @ [CR, LF] @ msg_invalid))
         else ((\<lparr>inputBuffer = terminated, inputIndex = 0\<rparr>, filter_window_size),
               [c] @ [CR, LF] @ msg_empty))
      else ((st\<lparr>inputIndex := 0\<rparr>, filter_window_size), [c] @ msg_non_numeric))"

text \<open>The loop over the characters received, in order, with all the text sent.\<close>

fun uart_run :: "uart_state \<times> int \<Rightarrow> string \<Rightarrow> (uart_state \<times> int) \<times> string" where
  "uart_run s [] = (s, [])"
| "uart_run s (c # cs) =
     (let (s', out) = uart_reader_step c s; (s'', out') = uart_run s' cs
      in (s'', out @ out'))"

text \<open>The number a string of decimal digits denotes.\<close>

definition decimal_from :: "nat \<Rightarrow> string \<Rightarrow> nat" where
  "decimal_from a cs = foldl (\<lambda>v c. v * 10 + (of_char c - of_char CHR ''0'')) a cs"

text \<open>
  The parser's invariant: the array has its \<open>INPUT_BUFFER_SIZE\<close> characters, at
  most 9 of them are held, and the characters held are digits.
\<close>

definition uart_inv :: "uart_state \<Rightarrow> bool" where
  "uart_inv st \<longleftrightarrow>
     length (inputBuffer st) = INPUT_BUFFER_SIZE \<and> inputIndex st \<le> 9
     \<and> (\<forall>i<inputIndex st. is_digit (inputBuffer st ! i))"

text \<open>The values the shared window size takes.\<close>

definition window_size_ok :: "int \<Rightarrow> bool" where
  "window_size_ok w \<longleftrightarrow> w = 5 \<or> (10 \<le> w \<and> w \<le> 100)"

section \<open>The resource monitor: \<open>utoa\<close> and \<open>formatTaskStats\<close>\<close>

text \<open>
  \<open>utoa\<close> writes the digits of \<open>value\<close> from the least significant one, in a
  do-while loop, and then reverses them; a base outside 2 to 16 gives the empty string.
\<close>

function utoa_loop :: "nat \<Rightarrow> nat \<Rightarrow> string" where
  "utoa_loop v base =
     (if base < 2 then []
      else (''0123456789ABCDEF'' ! (v mod base))
           # (if v div base = 0 then [] else utoa_loop (v div base) base))"
  by pat_completeness auto
termination
proof (relation "measure fst")
  show "wf (measure fst)" by simp
next
  fix v base :: nat
  assume "\<not> base < 2" "v div base \<noteq> 0"
  then have "1 < base" "0 < v" by (auto intro: ccontr)
  then have "v div base < v" by (rule div_less_dividend)
  then show "((v div base, base), (v, base)) \<in> measure fst" by simp
qed

definition utoa :: "u32 \<Rightarrow> int \<Rightarrow> string" where
  "utoa v base = (if base < 2 \<or> base > 16 then [] else rev (utoa_loop (unat v) (nat base)))"

text \<open>
  The fields of FreeRTOS's \<open>TaskStatus_t\<close> that \<open>formatTaskStats\<close> reads. The
  structure is declared in FreeRTOS's task.h, not in main.c: the run-time counter is a
  \<open>uint32_t\<close> there, as is the total that \<open>vTopLikeTask\<close> receives in its
  \<open>uint32_t ulTotalRunTime\<close>. \<open>100UL\<close> is an \<open>unsigned long\<close>, 32 bits wide
  on the target, so the product is computed in 32 bits.
\<close>

record TaskStatus =
  pcTaskName :: string
  ulRunTimeCounter :: u32
  usStackHighWaterMark :: u32
  eCurrentState :: u32

text \<open>The local \<open>cpu\<close> of \<open>formatTaskStats\<close>.\<close>

definition cpu_usage :: "TaskStatus \<Rightarrow> u32 \<Rightarrow> u32" where
  "cpu_usage task totalRunTime =
     (if totalRunTime > 0 then (ulRunTimeCounter task * 100) div totalRunTime else 0)"

definition formatTaskStats :: "TaskStatus \<Rightarrow> u32 \<Rightarrow> string" where
  "formatTaskStats task totalRunTime =
     (let cpu = cpu_usage task totalRunTime;
          nameLen = length (pcTaskName task);
          cpuDigits = (if cpu < 10 then 1 else if cpu < 100 then 2 else 3 :: nat)
      in ''Name: '' @ pcTaskName task @ replicate (9 - nameLen) CHR '' ''
         @ '' | CPU: '' @ utoa cpu 10 @ ''%'' @ replicate (5 - (cpuDigits + 1)) CHR '' ''
         @ ''| Stack Free: '' @ utoa (usStackHighWaterMark task) 10
         @ '' | State: '' @ utoa (eCurrentState task) 10 @ [LF])"

text \<open>
  The specification's percentage, on the counters' values:
  \<open>task_runtime * 100 / total_runtime\<close>, and 0 if the total is 0.
\<close>

definition spec_cpu_percent :: "nat \<Rightarrow> nat \<Rightarrow> nat" where
  "spec_cpu_percent task_runtime total_runtime =
     (if total_runtime = 0 then 0 else task_runtime * 100 div total_runtime)"

section \<open>The graph renderer: \<open>setPixel\<close> and \<open>vDisplayGraphTask\<close>\<close>

text \<open>
  \<open>ucDisplayBuffer\<close> is an array of \<open>96 * 2\<close> bytes, all zero at start: byte
  \<open>x\<close> holds rows 0 to 7 of column \<open>x\<close>, byte \<open>x + 96\<close> rows 8 to 15, the
  least significant bit being the upper row.
\<close>

definition display_init :: "u8 list" where
  "display_init = replicate (96 * 2) 0"

text \<open>
  \<open>setPixel\<close> returns without a write for coordinates outside the bitmap; inside it,
  \<open>x + page * 96\<close> is below 192.
\<close>

definition setPixel :: "int \<Rightarrow> int \<Rightarrow> bool \<Rightarrow> u8 list \<Rightarrow> u8 list" where
  "setPixel x y on buf =
     (if x < 0 \<or> x \<ge> int DISPLAY_BUFFER_OFFSET \<or> y < 0 \<or> y \<ge> int Y_AXIS_HEIGHT then buf
      else
        (let page = y sdiv (int Y_AXIS_HEIGHT sdiv 2);
             bit_no = y smod (int Y_AXIS_HEIGHT sdiv 2);
             i = nat (x + page * int DISPLAY_BUFFER_OFFSET)
         in if on then buf[i := buf ! i OR push_bit (nat bit_no) 1]
            else buf[i := buf ! i AND NOT (push_bit (nat bit_no) 1)]))"

text \<open>
  The height \<open>y\<close> of a value, after both clamps. The product is computed in 32 bits;
  its quotient by 20 is again a 32-bit value.
\<close>

definition graph_y :: "c_int \<Rightarrow> int" where
  "graph_y v =
     (let y = sint ((v - word_of_int MIN_TEMPERATURE) * word_of_int MAX_HEIGHT)
                sdiv TEMPERATURE_RANGE;
          y = (if y < 0 then 0 else y);
          y = (if y > MAX_HEIGHT then MAX_HEIGHT else y)
      in y)"

text \<open>One pass of the loop that shifts the buffer to the left, and the loop.\<close>

definition shift_step :: "nat \<Rightarrow> u8 list \<Rightarrow> u8 list" where
  "shift_step i buf =
     (let b1 = buf[i := buf ! (i + 1)]
      in b1[i + DISPLAY_BUFFER_OFFSET := b1 ! (i + 1 + DISPLAY_BUFFER_OFFSET)])"

definition shift_left :: "u8 list \<Rightarrow> u8 list" where
  "shift_left buf = fold shift_step [0..<DISPLAY_BUFFER_OFFSET - 1] buf"

text \<open>
  One iteration of the task's loop for a received value: the buffer it passes to
  \<open>OSRAMImageDraw\<close>. The text "T: value C" that the task draws afterwards
  does not pass through \<open>ucDisplayBuffer\<close> and is left out.
\<close>

definition display_iteration :: "c_int \<Rightarrow> u8 list \<Rightarrow> u8 list" where
  "display_iteration v buf =
     (let y = graph_y v;
          b1 = shift_left buf;
          b2 = b1[DISPLAY_BUFFER_OFFSET - 1 := 0];
          b3 = b2[(DISPLAY_BUFFER_OFFSET - 1) + DISPLAY_BUFFER_OFFSET := 0];
          b4 = setPixel (int DISPLAY_BUFFER_OFFSET - 1) (MAX_HEIGHT - y) True b3;
          b5 = fold (\<lambda>i. setPixel 0 (int i) True) [0..<Y_AXIS_HEIGHT] b4;
          b6 = fold (\<lambda>i. setPixel (int i) X_AXIS_POSITION True) [0..<DISPLAY_BUFFER_OFFSET] b5
      in b6)"

text \<open>The loop over the values received, in order.\<close>

definition display_run :: "c_int list \<Rightarrow> u8 list \<Rightarrow> u8 list" where
  "display_run vs buf = fold display_iteration vs buf"

text \<open>
  Reading the bitmap: the pixel of column \<open>x\<close> and row \<open>y\<close> (row 0 is the top),
  and the row that marks a value, \<open>MAX_HEIGHT - y\<close>.
\<close>

definition pixel_at :: "u8 list \<Rightarrow> nat \<Rightarrow> nat \<Rightarrow> bool" where
  "pixel_at buf x y = bit (buf ! (x + (y div 8) * 96)) (y mod 8)"

definition graph_row :: "c_int \<Rightarrow> nat" where
  "graph_row v = nat (MAX_HEIGHT - graph_y v)"

text \<open>
  What column \<open>x\<close> shows, apart from the axes, after the values \<open>vs\<close> were rendered
  on the bitmap \<open>buf\<close>: the mark of the value rendered \<open>95 - x\<close> iterations before
  the last one, or, where fewer values were rendered, the column of \<open>buf\<close> shifted
  there.
\<close>

definition column_shows :: "c_int list \<Rightarrow> u8 list \<Rightarrow> nat \<Rightarrow> nat \<Rightarrow> bool" where
  "column_shows vs buf x y \<longleftrightarrow>
     (if 95 - x < length vs then y = graph_row (vs ! (length vs - 1 - (95 - x)))
      else pixel_at buf (x + length vs) y)"

section \<open>Properties of the sample source\<close>

lemma smod_nonneg: "0 \<le> k \<Longrightarrow> 0 < l \<Longrightarrow> k smod l = k mod (l::int)"
  by (cases "k = 0") (simp_all add: smod_int_alt_def)

lemma pseudorandom_eq:
  "pseudorandom seed =
     (seed * 1103515245 + 12345, uint (drop_bit 16 (seed * 1103515245 + 12345) AND 0x7FFF))"
  by (simp add: pseudorandom_def Let_def)

lemma pseudorandom_nonneg: "0 \<le> snd (pseudorandom seed)"
  by (simp add: pseudorandom_def Let_def)

lemma sensor_seed: "fst (sensor_iteration seed) = fst (pseudorandom seed)"
  by (simp add: sensor_iteration_def split_beta)

lemma sensor_mod: "snd (sensor_iteration seed) = 15 + snd (pseudorandom seed) mod 21"
  using pseudorandom_nonneg [of seed]
  by (simp add: sensor_iteration_def split_beta smod_nonneg)

lemma sensor_range: "15 \<le> snd (sensor_iteration seed)" "snd (sensor_iteration seed) \<le> 35"
proof -
  have "0 \<le> snd (pseudorandom seed) mod 21" "snd (pseudorandom seed) mod 21 < 21"
    by simp_all
  then show "15 \<le> snd (sensor_iteration seed)" "snd (sensor_iteration seed) \<le> 35"
    unfolding sensor_mod by linarith+
qed

lemma pseudorandom_run3: "pseudorandom_run 3 initial_seed = [20478, 30212, 11649]"
  by (simp add: numeral_3_eq_3 pseudorandom_def initial_seed_def)

lemma sensor_run3: "sensor_run 3 initial_seed = [18, 29, 30]"
  by (simp add: numeral_3_eq_3 sensor_iteration_def pseudorandom_def initial_seed_def
      smod_int_alt_def)

text \<open>
  Claim C6. The generator multiplies the seed by 1103515245 and adds 12345 in 32-bit
  unsigned arithmetic and returns bits 16 to 30 of the new seed; every temperature is
  15 plus that result modulo 21, hence between 15 and 35; the seed starts at 6789, so
  in every run the first three results of the generator are 20478, 30212 and 11649 and
  the first three temperatures are 18, 29 and 30.
\<close>

theorem sample_source_deterministic_in_range:
  "fst (pseudorandom seed) = seed * 1103515245 + 12345
   \<and> snd (pseudorandom seed) = uint (drop_bit 16 (seed * 1103515245 + 12345) AND 0x7FFF)
   \<and> fst (sensor_iteration seed) = fst (pseudorandom seed)
   \<and> snd (sensor_iteration seed) = 15 + snd (pseudorandom seed) mod 21
   \<and> 15 \<le> snd (sensor_iteration seed) \<and> snd (sensor_iteration seed) \<le> 35
   \<and> initial_seed = 6789
   \<and> pseudorandom_run 3 initial_seed = [20478, 30212, 11649]
   \<and> sensor_run 3 initial_seed = [18, 29, 30]"
  using sensor_seed [of seed] sensor_mod [of seed] sensor_range [of seed] sensor_run3
    pseudorandom_run3
  by (simp only: pseudorandom_eq fst_conv snd_conv initial_seed_def simp_thms)

section \<open>Properties of the adaptive filter\<close>

subsection \<open>The ring buffer after a reset\<close>

lemma last_n_short: "length xs \<le> n \<Longrightarrow> last_n n xs = xs"
  by (simp add: last_n_def)

lemma sum_last_n_snoc_short:
  fixes x :: "'a::comm_ring_1"
  assumes "length hist < W"
  shows "sum_list (last_n W (hist @ [x])) = sum_list (last_n W hist) + x"
  using assms by (simp add: last_n_def)

lemma sum_last_n_snoc_full:
  fixes x :: "'a::comm_ring_1"
  assumes "W \<le> length hist" "0 < W"
  shows "sum_list (last_n W (hist @ [x])) = sum_list (last_n W hist) - hist ! (length hist - W) + x"
proof -
  let ?n = "length hist"
  have lt: "?n - W < ?n" using assms by simp
  have "drop (?n - W) hist = hist ! (?n - W) # drop (Suc (?n - W)) hist"
    using lt by (simp add: Cons_nth_drop_Suc)
  moreover have "Suc ?n - W = Suc (?n - W)" using assms by simp
  ultimately show ?thesis
    using assms by (simp add: last_n_def)
qed

lemma ring_inv_update:
  assumes W: "0 < W" "W \<le> 100" and inv: "ring_inv W hist st"
  shows "\<exists>st'. update_average x st = Inr st' \<and> ring_inv W (hist @ [x]) st'"
proof -
  let ?n = "length hist"
  let ?i = "?n mod W"
  have ws: "window_size st = int W" and len: "length (buffer st) = 100"
    and idx: "index st = int ?i" and cnt: "count st = int (min ?n W)"
    and sm: "sum_val st = sum_list (last_n W hist)"
    and recent: "\<And>k. k < ?n \<Longrightarrow> ?n - k \<le> W \<Longrightarrow> buffer st ! (k mod W) = hist ! k"
    and zero: "\<And>j. j < 100 \<Longrightarrow> min ?n W \<le> j \<Longrightarrow> buffer st ! j = 0"
    using inv by (simp_all add: ring_inv_def)
  have iW: "?i < W" using W by simp
  then have i100: "?i < 100" using W by linarith
  define st' where "st' = st\<lparr>sum_val := sum_val st - buffer st ! ?i + x,
                   buffer := (buffer st)[?i := x],
                   index := int (Suc ?n mod W),
                   count := int (min (Suc ?n) W)\<rparr>"
  have next_idx: "(int ?i + 1) smod int W = int (Suc ?n mod W)"
  proof -
    have "(int ?i + 1) smod int W = (int ?i + 1) mod int W"
      using W by (intro smod_nonneg) simp_all
    also have "\<dots> = int ((?i + 1) mod W)"
      by (simp add: zmod_int ac_simps)
    also have "(?i + 1) mod W = Suc ?n mod W"
      by (simp add: mod_Suc_eq)
    finally show ?thesis .
  qed
  have next_cnt: "(if int (min ?n W) < int W then int (min ?n W) + 1 else int (min ?n W)) = int (min (Suc ?n) W)"
    by (simp add: min_def)
  have upd: "update_average x st = Inr st'"
    using i100 W by (simp add: update_average_def ws len idx cnt next_idx next_cnt st'_def)
  have old: "sum_val st - buffer st ! ?i + x = sum_list (last_n W (hist @ [x]))"
  proof (cases "?n < W")
    case True
    then have "?i = ?n" by simp
    moreover have "buffer st ! ?n = 0" using True W by (intro zero) simp_all
    ultimately show ?thesis using True by (simp add: sm sum_last_n_snoc_short)
  next
    case False
    then have ge: "W \<le> ?n" by simp
    have "(?n - W) mod W = ?i" using ge by (simp add: le_mod_geq)
    moreover have "buffer st ! ((?n - W) mod W) = hist ! (?n - W)"
      using ge W by (intro recent) simp_all
    ultimately show ?thesis using ge W by (simp add: sm sum_last_n_snoc_full)
  qed
  have rec': "buffer st' ! (k mod W) = (hist @ [x]) ! k"
    if "k < Suc ?n" "Suc ?n - k \<le> W" for k
  proof (cases "k = ?n")
    case True
    then show ?thesis using i100 len by (simp add: st'_def)
  next
    case False
    then have k: "k < ?n" using that by simp
    have "k mod W \<noteq> ?i"
    proof
      assume eq: "k mod W = ?i"
      then have "(?n - k) mod W = 0"
        using k by (metis less_imp_le_nat mod_eq_dvd_iff_nat mod_0_imp_dvd dvd_imp_mod_0)
      moreover have "0 < ?n - k" "?n - k < W" using k that by simp_all
      ultimately show False by simp
    qed
    then show ?thesis using k that recent [of k] by (simp add: st'_def nth_append)
  qed
  have zero': "buffer st' ! j = 0" if "j < 100" "min (Suc ?n) W \<le> j" for j
  proof -
    have "j \<noteq> ?i" using that iW by (cases "?n < W") (simp_all add: min_def split: if_splits)
    moreover have "min ?n W \<le> j" using that by simp
    ultimately show ?thesis using that zero [of j] by (simp add: st'_def)
  qed
  have "ring_inv W (hist @ [x]) st'"
    unfolding ring_inv_def
    apply (intro conjI allI impI)
          apply (simp add: st'_def ws)
         apply (simp add: st'_def len)
        apply (simp add: st'_def)
       apply (simp add: st'_def)
      apply (simp add: st'_def old)
     apply (rule rec'; simp)
    apply (rule zero'; simp)
    done
  with upd show ?thesis by blast
qed

subsection \<open>Sums and quotients that stay in the 32-bit range\<close>

lemma sint_word_of_int_small:
  "- (2 ^ 31) \<le> k \<Longrightarrow> k < 2 ^ 31 \<Longrightarrow> sint (word_of_int k :: 32 word) = k"
  by (simp add: sint_sbintrunc' signed_take_bit_int_eq_self)

lemma sint_sum_list_bounded:
  fixes xs :: "32 word list"
  assumes "\<forall>x\<in>set xs. \<bar>sint x\<bar> \<le> B" "int (length xs) * B < 2 ^ 31"
  shows "sint (sum_list xs) = sum_list (map sint xs) \<and> \<bar>sum_list (map sint xs)\<bar> \<le> int (length xs) * B"
  using assms
proof (induction xs)
  case Nil
  then show ?case by simp
next
  case (Cons x xs)
  have B0: "0 \<le> B" using Cons.prems(1) by fastforce
  have "int (length xs) * B \<le> int (length (x # xs)) * B"
    using B0 by (simp add: algebra_simps)
  then have IH: "sint (sum_list xs) = sum_list (map sint xs)" "\<bar>sum_list (map sint xs)\<bar> \<le> int (length xs) * B"
    using Cons by auto
  have x: "\<bar>sint x\<bar> \<le> B" using Cons.prems(1) by simp
  have bound: "\<bar>sint x + sum_list (map sint xs)\<bar> \<le> int (length (x # xs)) * B"
    using x IH(2) by (simp add: algebra_simps)
  have "sint (x + sum_list xs) = signed_take_bit 31 (sint x + sint (sum_list xs))"
    by (simp add: sint_word_ariths word_size)
  also have "\<dots> = sint x + sum_list (map sint xs)"
    unfolding IH(1) using bound Cons.prems(2)
    by (intro signed_take_bit_int_eq_self) linarith+
  finally show ?case using bound by simp
qed

lemma sdiv_nonneg_eq_div: "0 \<le> a \<Longrightarrow> 0 < b \<Longrightarrow> a sdiv b = a div (b::int)"
  by (cases "a = 0") (simp_all add: signed_divide_int_def)

lemma abs_sdiv_le: "\<bar>a sdiv b\<bar> \<le> \<bar>a::int\<bar>"
  using sdiv_int_range [of a b] by auto

subsection \<open>Iterations and runs under a fixed window size\<close>

lemma ring_inv_emit:
  assumes "0 < W" "ring_inv W (hist @ [x]) st'"
  shows "emit st' = Inr (window_avg W (hist @ [x]))"
  using assms by (simp add: emit_def ring_inv_def window_avg_def)

lemma check_reconfig_same: "window_size st = w \<Longrightarrow> check_reconfig w st = (st, [])"
  by (simp add: check_reconfig_def)

lemma check_reconfig_changed:
  "window_size st \<noteq> w \<Longrightarrow>
     check_reconfig w st = (reset_state w, ''\<newline>Filter window size updated.\<newline>'')"
  by (auto simp add: check_reconfig_def reset_state_def)

lemma ring_inv_iteration:
  assumes W: "0 < W" "W \<le> 100" and inv: "ring_inv W hist st"
  shows "\<exists>st'. filter_iteration (int W) x st = Inr (st', [], window_avg W (hist @ [x]))
           \<and> ring_inv W (hist @ [x]) st'"
proof -
  obtain st' where u: "update_average x st = Inr st'" and inv': "ring_inv W (hist @ [x]) st'"
    using ring_inv_update [OF W inv] by blast
  have "window_size st = int W" using inv by (simp add: ring_inv_def)
  then have "check_reconfig (int W) st = (st, [])" by (rule check_reconfig_same)
  then have "filter_iteration (int W) x st = Inr (st', [], window_avg W (hist @ [x]))"
    by (simp add: filter_iteration_def u ring_inv_emit [OF W(1) inv'])
  with inv' show ?thesis by blast
qed

lemma ring_inv_reset_state: "ring_inv W [] (reset_state (int W))"
  by (simp add: ring_inv_def last_n_def reset_state_def)

lemma reset_iteration:
  assumes W: "0 < W" "W \<le> 100" and ch: "window_size st \<noteq> int W"
  shows "\<exists>st' notice. filter_iteration (int W) x st = Inr (st', notice, window_avg W [x])
           \<and> ring_inv W [x] st'"
proof -
  obtain st' where u: "update_average x (reset_state (int W)) = Inr st'"
    and inv': "ring_inv W ([] @ [x]) st'"
    using ring_inv_update [OF W ring_inv_reset_state] by blast
  have "filter_iteration (int W) x st
      = Inr (st', ''\<newline>Filter window size updated.\<newline>'', window_avg W ([] @ [x]))"
    by (simp add: filter_iteration_def check_reconfig_changed [OF ch] u ring_inv_emit [OF W(1) inv'])
  with inv' show ?thesis by auto
qed

lemma ring_inv_run:
  assumes W: "0 < W" "W \<le> 100"
  shows "ring_inv W hist st \<Longrightarrow>
     \<exists>st' ys. run_filter st (map (Pair (int W)) xs) = Inr (st', ys)
        \<and> ring_inv W (hist @ xs) st' \<and> length ys = length xs
        \<and> (\<forall>n<length xs. ys ! n = window_avg W (hist @ take (Suc n) xs))"
proof (induction xs arbitrary: hist st)
  case Nil
  then show ?case by simp
next
  case (Cons x xs)
  obtain st1 where it: "filter_iteration (int W) x st = Inr (st1, [], window_avg W (hist @ [x]))"
    and inv1: "ring_inv W (hist @ [x]) st1"
    using ring_inv_iteration [OF W Cons.prems] by blast
  obtain st' ys where run: "run_filter st1 (map (Pair (int W)) xs) = Inr (st', ys)"
    and inv': "ring_inv W ((hist @ [x]) @ xs) st'" and len: "length ys = length xs"
    and nth: "\<And>n. n < length xs \<Longrightarrow> ys ! n = window_avg W ((hist @ [x]) @ take (Suc n) xs)"
    using Cons.IH [OF inv1] by blast
  have "run_filter st (map (Pair (int W)) (x # xs)) = Inr (st', window_avg W (hist @ [x]) # ys)"
    by (simp add: it run)
  moreover have "(window_avg W (hist @ [x]) # ys) ! n = window_avg W (hist @ take (Suc n) (x # xs))"
    if "n < length (x # xs)" for n
    using that nth by (cases n) simp_all
  ultimately show ?case using inv' len by auto
qed

lemma reset_run:
  assumes W: "0 < W" "W \<le> 100" and ch: "window_size st \<noteq> int W"
  shows "\<exists>st' ys. run_filter st (map (Pair (int W)) xs) = Inr (st', ys)
        \<and> length ys = length xs
        \<and> (\<forall>n<length xs. ys ! n = window_avg W (take (Suc n) xs))"
proof (cases xs)
  case Nil
  then show ?thesis by simp
next
  case (Cons x xs')
  obtain st1 notice where it: "filter_iteration (int W) x st = Inr (st1, notice, window_avg W [x])"
    and inv1: "ring_inv W [x] st1"
    using reset_iteration [OF W ch] by blast
  obtain st' ys where run: "run_filter st1 (map (Pair (int W)) xs') = Inr (st', ys)"
    and len: "length ys = length xs'"
    and nth: "\<And>n. n < length xs' \<Longrightarrow> ys ! n = window_avg W ([x] @ take (Suc n) xs')"
    using ring_inv_run [OF W inv1] by blast
  have "run_filter st (map (Pair (int W)) xs) = Inr (st', window_avg W [x] # ys)"
    by (simp add: Cons it run)
  moreover have "(window_avg W [x] # ys) ! n = window_avg W (take (Suc n) xs)"
    if "n < length xs" for n
    using that nth by (cases n) (simp_all add: Cons)
  ultimately show ?thesis using len Cons by auto
qed

lemma window_eq: "n \<le> length xs \<Longrightarrow> window W n xs = last_n W (take n xs)"
  by (simp add: window_def last_n_def min_def)

lemma length_window: "n \<le> length xs \<Longrightarrow> length (window W n xs) = min n W"
  by (simp add: window_def last_n_def min_def)

lemma window_avg_window:
  assumes "1 \<le> n" "n \<le> length xs"
  shows "window_avg W (take n xs) = word_of_int (sint (sum_list (window W n xs)) sdiv int (min n W))"
  using assms by (simp add: window_avg_def window_eq)

lemma truncated_mean_sint:
  fixes win :: "c_int list"
  assumes len: "length win = k" "0 < k" "k \<le> 100"
    and small: "\<forall>x\<in>set win. \<bar>sint x\<bar> \<le> 21474836"
  shows "sint (word_of_int (sint (sum_list win) sdiv int k) :: c_int) = sum_list (map sint win) sdiv int k"
proof -
  have "int (length win) * 21474836 < 2 ^ 31" using len by simp
  from sint_sum_list_bounded [OF small this]
  have s: "sint (sum_list win) = sum_list (map sint win)"
    and b: "\<bar>sum_list (map sint win)\<bar> \<le> int (length win) * 21474836" by simp_all
  have "\<bar>sum_list (map sint win) sdiv int k\<bar> \<le> \<bar>sum_list (map sint win)\<bar>"
    by (rule abs_sdiv_le)
  also have "\<dots> < 2 ^ 31" using b len by simp
  finally have "- (2 ^ 31) \<le> sum_list (map sint win) sdiv int k" "sum_list (map sint win) sdiv int k < 2 ^ 31"
    by linarith+
  then show ?thesis unfolding s by (rule sint_word_of_int_small)
qed

lemma sum_list_nonneg_int: "\<forall>x\<in>set xs. 0 \<le> f x \<Longrightarrow> 0 \<le> sum_list (map f xs :: int list)"
  by (induction xs) simp_all

lemma example_run:
  assumes "window_size st0 \<noteq> 3"
  shows "\<exists>st. run_filter st0 (map (Pair 3) [20, 22, 24, 26, 28]) = Inr (st, [20, 21, 22, 24, 26])"
  using assms
  by (simp add: filter_iteration_def check_reconfig_def update_average_def emit_def
      signed_divide_int_def smod_int_alt_def)

lemma window_map: "window W n (map f xs) = map f (window W n xs)"
  by (simp add: window_def last_n_def take_map drop_map)

lemma set_window: "set (window W n xs) \<subseteq> set xs"
  unfolding window_def last_n_def
  using set_drop_subset [of "length (take n xs) - min n W" "take n xs"] set_take_subset [of n xs]
  by blast

text \<open>
  Claim C1. Let the shared window size be \<open>W\<close>, between 1 and 100 (so any accepted
  size from 10 to 100, and 3), from an iteration on in which it differs from the
  filter's active size, so that this iteration resets the filter. Then every iteration
  emits a value. The samples the filter receives are those the sample source sends,
  between 15 and 35; for them, and for all samples from 0 to 21474836, the \<open>n\<close>-th
  value emitted since the reset is the floor of the sum of the last \<open>min n W\<close>
  samples received since the reset, divided by \<open>min n W\<close>: the specification's
  formula. With window size 3 and the samples 20, 22, 24, 26, 28 the values emitted are
  20, 21, 22, 24, 26. For samples of any value the theorem also gives the value as the
  code computes it: the 32-bit sum, divided as C divides.
\<close>

theorem filter_output_is_window_mean:
  assumes "1 \<le> W" "W \<le> 100" "window_size st0 \<noteq> int W"
  shows "\<exists>st ys. run_filter st0 (map (Pair (int W)) xs) = Inr (st, ys) \<and> length ys = length xs
    \<and> ((\<forall>x\<in>set xs. 0 \<le> sint x \<and> sint x \<le> 21474836) \<longrightarrow>
         (\<forall>n. 1 \<le> n \<and> n \<le> length xs \<longrightarrow>
            sint (ys ! (n - 1)) = spec_filter_output W (map sint xs) n))
    \<and> (W = 3 \<and> xs = [20, 22, 24, 26, 28] \<longrightarrow> ys = [20, 21, 22, 24, 26])
    \<and> (\<forall>n. 1 \<le> n \<and> n \<le> length xs \<longrightarrow>
         ys ! (n - 1) = word_of_int (sint (sum_list (window W n xs)) sdiv int (min n W)))"
proof -
  have W: "0 < W" "W \<le> 100" using assms by simp_all
  obtain st ys where run: "run_filter st0 (map (Pair (int W)) xs) = Inr (st, ys)"
    and len: "length ys = length xs"
    and nth: "\<And>n. n < length xs \<Longrightarrow> ys ! n = window_avg W (take (Suc n) xs)"
    using reset_run [OF W assms(3)] by blast
  have main: "ys ! (n - 1) = word_of_int (sint (sum_list (window W n xs)) sdiv int (min n W))"
    if "1 \<le> n" "n \<le> length xs" for n
    using that nth [of "n - 1"] window_avg_window [OF that, of W] by simp
  have floor: "sint (ys ! (n - 1)) = spec_filter_output W (map sint xs) n"
    if range: "\<forall>x\<in>set xs. 0 \<le> sint x \<and> sint x \<le> 21474836"
      and n: "1 \<le> n" "n \<le> length xs" for n
  proof -
    have win: "\<forall>x\<in>set (window W n xs). 0 \<le> sint x \<and> sint x \<le> 21474836"
      using range set_window [of W n xs] by blast
    then have small: "\<forall>x\<in>set (window W n xs). \<bar>sint x\<bar> \<le> 21474836" by auto
    have "length (window W n xs) = min n W" using n by (simp add: length_window)
    moreover have "0 < min n W" "min n W \<le> 100" using n W by simp_all
    ultimately have "sint (ys ! (n - 1))
        = sum_list (map sint (window W n xs)) sdiv int (min n W)"
      unfolding main [OF n] using small by (rule truncated_mean_sint)
    moreover have "0 \<le> sum_list (map sint (window W n xs))"
      using win by (intro sum_list_nonneg_int) simp
    moreover have "0 < int (min n W)" using n W by simp
    ultimately show ?thesis
      by (simp add: sdiv_nonneg_eq_div spec_filter_output_def window_map)
  qed
  have ex: "ys = [20, 21, 22, 24, 26]" if "W = 3" "xs = [20, 22, 24, 26, 28]"
    using example_run [of st0] assms(3) run that by auto
  show ?thesis
    using run len main floor ex by blast
qed

text \<open>
  The theorem at window size 3, for the task started with the shared size 5: the five
  samples of the specification's scenario, the five values it expects, and the values
  of the specification's formula.
\<close>

theorem filter_window3_witness:
  "filter_outputs (filter_init 5 (replicate 100 0)) (map (Pair 3) [20, 22, 24, 26, 28])
     = Inr [20, 21, 22, 24, 26]
   \<and> map (spec_filter_output 3 [20, 22, 24, 26, 28]) [1, 2, 3, 4, 5] = [20, 21, 22, 24, 26]"
proof -
  have "filter_outputs (filter_init 5 (replicate 100 0)) (map (Pair 3) [20, 22, 24, 26, 28])
     = Inr [20, 21, 22, 24, 26]"
    using filter_output_is_window_mean
      [of 3 "filter_init 5 (replicate 100 0)" "[20, 22, 24, 26, 28]"]
    by (auto simp add: filter_outputs_def filter_init_def)
  moreover have "map (spec_filter_output 3 [20, 22, 24, 26, 28]) [1, 2, 3, 4, 5]
      = [20, 21, 22, 24, 26]"
    by (simp add: spec_filter_output_def window_def last_n_def)
  ultimately show ?thesis by simp
qed

subsection \<open>The count at the division\<close>

lemma check_reconfig_active: "window_size (fst (check_reconfig w st)) = w"
  by (simp add: check_reconfig_def)

lemma check_reconfig_count: "0 \<le> count st \<Longrightarrow> 0 \<le> count (fst (check_reconfig w st))"
  by (simp add: check_reconfig_def)

lemma update_average_count:
  assumes "update_average raw st = Inr st'" "0 \<le> count st"
  shows "0 \<le> count st'" and "1 \<le> window_size st \<Longrightarrow> 1 \<le> count st'"
  using assms by (auto simp add: update_average_def split: if_splits)

lemma filter_iteration_count:
  assumes "filter_iteration w raw st = Inr (st', notice, y)" "0 \<le> count st"
  shows "0 \<le> count st'"
  using assms update_average_count(1) [of raw "fst (check_reconfig w st)" st']
  by (auto simp add: filter_iteration_def split_beta check_reconfig_count split: sum.splits)

lemma reachable_count: "reachable st \<Longrightarrow> 0 \<le> count st"
  by (induction rule: reachable.induct) (simp_all add: filter_init_def filter_iteration_count)

text \<open>
  Claim C7. In every iteration that starts in a state the task can reach and whose
  active window size (the shared size read at the head of the loop) is at least 1, the
  count is at least 1 when \<open>sum / count\<close> is computed: the iteration does not divide
  by zero, and the emit step yields the quotient.
\<close>

theorem emit_count_at_least_one:
  assumes "reachable st" "1 \<le> w"
  shows "filter_iteration w raw st \<noteq> Inl Division_By_Zero
    \<and> (\<forall>st2. update_average raw (fst (check_reconfig w st)) = Inr st2 \<longrightarrow>
          1 \<le> count st2
          \<and> emit st2 = Inr (word_of_int (sint (sum_val st2) sdiv count st2)))"
proof -
  let ?st1 = "fst (check_reconfig w st)"
  have c1: "0 \<le> count ?st1" using assms(1) by (simp add: reachable_count check_reconfig_count)
  have w1: "1 \<le> window_size ?st1" using assms(2) by (simp add: check_reconfig_active)
  have pos: "1 \<le> count st2" if "update_average raw ?st1 = Inr st2" for st2
    using update_average_count(2) [OF that c1 w1] .
  have em: "emit st2 = Inr (word_of_int (sint (sum_val st2) sdiv count st2))"
    if "update_average raw ?st1 = Inr st2" for st2
    using pos [OF that] by (simp add: emit_def)
  have "update_average raw ?st1 \<noteq> Inl Division_By_Zero"
    using w1 by (simp add: update_average_def)
  then have "filter_iteration w raw st \<noteq> Inl Division_By_Zero"
    using em by (auto simp add: filter_iteration_def split_beta split: sum.splits)
  then show ?thesis using pos em by blast
qed

text \<open>
  The theorem at the task's first iteration, started with the shared size 5 and a zero
  block, on the sample 20.
\<close>

theorem emit_count_at_least_one_witness:
  "reachable (filter_init 5 (replicate 100 0))
   \<and> filter_iteration 5 20 (filter_init 5 (replicate 100 0)) \<noteq> Inl Division_By_Zero
   \<and> update_average 20 (fst (check_reconfig 5 (filter_init 5 (replicate 100 0))))
       = Inr \<lparr>window_size = 5, buffer = (replicate 100 0)[0 := 20], index = 1, sum_val = 20, count = 1\<rparr>
   \<and> emit \<lparr>window_size = 5, buffer = (replicate 100 0)[0 := 20], index = 1, sum_val = 20, count = 1\<rparr>
       = Inr 20"
proof -
  have r: "reachable (filter_init 5 (replicate 100 0))" by (rule reachable.start)
  have u: "update_average 20 (fst (check_reconfig 5 (filter_init 5 (replicate 100 0))))
       = Inr \<lparr>window_size = 5, buffer = (replicate 100 0)[0 := 20], index = 1, sum_val = 20, count = 1\<rparr>"
    by (simp add: update_average_def check_reconfig_def filter_init_def smod_int_alt_def)
  show ?thesis
    using r u emit_count_at_least_one [OF r, of 5 20] by simp
qed

subsection \<open>Reconfiguration\<close>

text \<open>
  Claim C2. When the shared window size read at the head of an iteration differs from
  the filter's active one, the head of the loop replaces the whole filter state: the
  new window size, a buffer of zeros, sum 0, count 0 and write position 0. When the new
  size is a window size (at least 1), the iteration then emits exactly the sample it
  receives, and the state and the value it leaves are given by the new size and that
  sample alone, whatever state the earlier samples had left.
\<close>

theorem reconfiguration_resets_filter:
  assumes "shared \<noteq> window_size st"
  shows "check_reconfig shared st =
      (\<lparr>window_size = shared, buffer = replicate 100 0, index = 0, sum_val = 0, count = 0\<rparr>,
       ''\<newline>Filter window size updated.\<newline>'')
    \<and> (1 \<le> shared \<longrightarrow>
         filter_iteration shared raw st =
           Inr (\<lparr>window_size = shared, buffer = (replicate 100 0)[0 := raw],
                 index = 1 smod shared, sum_val = raw, count = 1\<rparr>,
                ''\<newline>Filter window size updated.\<newline>'', raw))"
  using assms
  by (simp add: check_reconfig_def filter_iteration_def update_average_def emit_def)

text \<open>
  The theorem at a filter of window size 5 that has averaged five samples of value 9:
  the shared size becomes 10 and the next sample is 42.
\<close>

theorem reconfiguration_resets_filter_witness:
  "filter_iteration 10 42
     \<lparr>window_size = 5, buffer = replicate 100 9, index = 3, sum_val = 45, count = 5\<rparr>
   = Inr (\<lparr>window_size = 10, buffer = (replicate 100 0)[0 := 42], index = 1, sum_val = 42, count = 1\<rparr>,
          ''\<newline>Filter window size updated.\<newline>'', 42)"
  using reconfiguration_resets_filter
    [of 10 "\<lparr>window_size = 5, buffer = replicate 100 9, index = 3, sum_val = 45, count = 5\<rparr>" 42]
  by (simp add: smod_int_alt_def)

subsection \<open>The filter-state invariant\<close>

text \<open>
  Claim C3 asks that after every iteration the sum is that of the \<open>count\<close> most
  recent samples. The task never writes the block it allocates before its loop; only
  the reset path clears it. Started with the shared size 5 and a block whose first slot
  holds 7, the first iteration, on the sample 20, subtracts that 7: it leaves count 1
  and sum 13, not 20, and emits 13.
\<close>

theorem uninitialised_buffer_skews_running_sum:
  "run_filter (filter_init 5 (7 # replicate 99 0)) [(5, 20)]
     = Inr (\<lparr>window_size = 5, buffer = 20 # replicate 99 0, index = 1, sum_val = 13, count = 1\<rparr>,
            [13])"
  by (simp add: filter_init_def filter_iteration_def check_reconfig_def update_average_def
      emit_def signed_divide_int_def smod_int_alt_def)

text \<open>
  From a reset on, under a window size between 1 and 100, the invariant of claim C3
  holds after every iteration: it follows from \<open>ring_inv\<close>, which \<open>ring_inv_run\<close>
  maintains.
\<close>

lemma ring_inv_claimed_invariant:
  assumes "0 < W" "W \<le> 100" "ring_inv W hist st"
  shows "0 \<le> count st \<and> count st \<le> window_size st \<and> window_size st \<le> 100
    \<and> 0 \<le> index st \<and> index st < window_size st
    \<and> sum_val st = sum_list (last_n (nat (count st)) hist)"
proof -
  have "last_n (min (length hist) W) hist = last_n W hist"
    by (simp add: last_n_def min_def)
  then show ?thesis using assms by (simp add: ring_inv_def)
qed

section \<open>Properties of the command interface\<close>

subsection \<open>Digits and \<open>stringToInt\<close>\<close>

lemma is_digit_code: "is_digit c \<longleftrightarrow> 48 \<le> (of_char c :: nat) \<and> (of_char c :: nat) \<le> 57"
  by (simp add: is_digit_def less_eq_char_def)

lemma not_digit_iff: "c < CHR ''0'' \<or> CHR ''9'' < c \<longleftrightarrow> \<not> is_digit c"
  by (auto simp add: is_digit_def not_le)

lemma digit_not_terminator: "is_digit c \<Longrightarrow> c \<noteq> NUL \<and> c \<noteq> CR \<and> c \<noteq> LF"
  by (auto simp add: is_digit_code)

lemma c_string_terminated:
  assumes "n < length arr" "\<forall>i<n. arr ! i \<noteq> NUL"
  shows "c_string (arr[n := NUL]) = take n arr"
proof -
  have "arr[n := NUL] = take n arr @ NUL # drop (Suc n) arr"
    using assms(1) by (rule upd_conv_take_nth_drop)
  moreover have "x \<noteq> NUL" if "x \<in> set (take n arr)" for x
    using that assms by (auto simp add: in_set_conv_nth)
  ultimately show ?thesis
    by (simp add: c_string_def takeWhile_append2)
qed

lemma digit_word:
  assumes "is_digit c"
  shows "(word_of_nat a :: c_int) * 10 + word_of_int (of_char c - of_char CHR ''0'')
       = word_of_nat (a * 10 + (of_char c - of_char CHR ''0''))"
proof -
  have "48 \<le> (of_char c :: nat)" using assms by (simp add: is_digit_code)
  moreover have "(of_char c :: int) = int (of_char c)"
    by (simp add: of_nat_of_char)
  ultimately have "(of_char c :: int) - 48 = int (of_char c - 48)"
    by (simp add: of_nat_diff)
  then show ?thesis by simp
qed

lemma stringToInt_loop_digits:
  "\<forall>c\<in>set cs. is_digit c \<Longrightarrow>
     stringToInt_loop (word_of_nat a) cs = sint (word_of_nat (decimal_from a cs) :: c_int)"
proof (induction cs arbitrary: a)
  case Nil
  then show ?case by (simp add: decimal_from_def)
next
  case (Cons c cs)
  have d: "is_digit c" using Cons.prems by simp
  then have "\<not> (c < CHR ''0'' \<or> CHR ''9'' < c)" by (simp add: not_digit_iff)
  then have "stringToInt_loop (word_of_nat a) (c # cs)
      = stringToInt_loop (word_of_nat (a * 10 + (of_char c - of_char CHR ''0''))) cs"
    using digit_word [OF d, of a] by simp
  also have "\<dots> = sint (word_of_nat (decimal_from (a * 10 + (of_char c - of_char CHR ''0'')) cs) :: c_int)"
    using Cons.prems by (intro Cons.IH) simp
  finally show ?case by (simp add: decimal_from_def)
qed

lemma decimal_from_bound:
  "\<forall>c\<in>set cs. is_digit c \<Longrightarrow> decimal_from a cs < (a + 1) * 10 ^ length cs"
proof (induction cs arbitrary: a)
  case Nil
  then show ?case by (simp add: decimal_from_def)
next
  case (Cons c cs)
  let ?a' = "a * 10 + (of_char c - of_char CHR ''0'')"
  have "is_digit c" using Cons.prems by simp
  then have "48 \<le> (of_char c :: nat)" "(of_char c :: nat) \<le> 57"
    by (simp_all add: is_digit_code)
  then have "?a' + 1 \<le> (a + 1) * 10" by simp
  then have le: "(?a' + 1) * 10 ^ length cs \<le> ((a + 1) * 10) * 10 ^ length cs"
    by (rule mult_le_mono1)
  have "decimal_from a (c # cs) = decimal_from ?a' cs"
    by (simp add: decimal_from_def)
  also have "\<dots> < (?a' + 1) * 10 ^ length cs"
    using Cons.prems by (intro Cons.IH) simp
  also note le
  also have "((a + 1) * 10) * 10 ^ length cs = (a + 1) * 10 ^ length (c # cs)"
    by (simp add: algebra_simps)
  finally show ?case .
qed

lemma stringToInt_decimal:
  assumes "\<forall>c\<in>set cs. is_digit c" "length cs \<le> 9"
  shows "stringToInt cs = int (decimal_from 0 cs)"
proof -
  have "decimal_from 0 cs < 10 ^ length cs"
    using decimal_from_bound [OF assms(1), of 0] by simp
  also have "(10::nat) ^ length cs \<le> 10 ^ 9"
    using assms(2) by (intro power_increasing) simp_all
  finally have small: "decimal_from 0 cs < 2 ^ 31" by simp
  have "stringToInt cs = sint (word_of_nat (decimal_from 0 cs) :: c_int)"
    using stringToInt_loop_digits [OF assms(1), of 0] by (simp add: stringToInt_def)
  also have "\<dots> = sint (word_of_int (int (decimal_from 0 cs)) :: c_int)"
    by simp
  also have "\<dots> = int (decimal_from 0 cs)"
    using small by (intro sint_word_of_int_small) simp_all
  finally show ?thesis .
qed

subsection \<open>The cases of a parser step\<close>

lemma uart_step_digit_room:
  assumes "is_digit c" "inputIndex st < 9"
  shows "uart_reader_step c (st, w)
     = ((st\<lparr>inputBuffer := (inputBuffer st)[inputIndex st := c],
             inputIndex := inputIndex st + 1\<rparr>, w), [c])"
  using assms by (simp add: uart_reader_step_def)

lemma uart_step_digit_full:
  assumes "is_digit c" "9 \<le> inputIndex st"
  shows "uart_reader_step c (st, w) = ((st\<lparr>inputIndex := 0\<rparr>, w), [c] @ msg_too_long)"
  using assms by (simp add: uart_reader_step_def)

lemma uart_step_other:
  assumes "\<not> is_digit c" "c \<noteq> CR" "c \<noteq> LF"
  shows "uart_reader_step c (st, w) = ((st\<lparr>inputIndex := 0\<rparr>, w), [c] @ msg_non_numeric)"
  using assms by (simp add: uart_reader_step_def)

lemma uart_step_terminator_index:
  assumes "c = CR \<or> c = LF"
  shows "inputIndex (fst (fst (uart_reader_step c (st, w)))) = 0"
proof -
  have "\<not> is_digit c" using assms digit_not_terminator [of c] by auto
  then show ?thesis using assms
    by (auto simp add: uart_reader_step_def Let_def)
qed

lemma uart_step_terminator_buffer:
  assumes "c = CR \<or> c = LF"
  shows "inputBuffer (fst (fst (uart_reader_step c (st, w)))) = (inputBuffer st)[inputIndex st := NUL]"
proof -
  have "\<not> is_digit c" using assms digit_not_terminator [of c] by auto
  then show ?thesis using assms
    by (auto simp add: uart_reader_step_def Let_def)
qed

lemma uart_inv_step: "uart_inv (fst s) \<Longrightarrow> uart_inv (fst (fst (uart_reader_step c s)))"
proof -
  assume inv: "uart_inv (fst s)"
  obtain st w where s: "s = (st, w)" by (cases s)
  consider (room) "is_digit c" "inputIndex st < 9" | (full) "is_digit c" "9 \<le> inputIndex st"
    | (eol) "c = CR \<or> c = LF" | (other) "\<not> is_digit c" "c \<noteq> CR" "c \<noteq> LF"
    by fastforce
  then show ?thesis
  proof cases
    case room
    then show ?thesis using inv
      by (auto simp add: s uart_step_digit_room uart_inv_def nth_list_update less_Suc_eq)
  next
    case full
    then show ?thesis using inv by (simp add: s uart_step_digit_full uart_inv_def)
  next
    case eol
    then show ?thesis using inv
      by (simp add: s uart_inv_def uart_step_terminator_index uart_step_terminator_buffer)
  next
    case other
    then show ?thesis using inv by (simp add: s uart_step_other uart_inv_def)
  qed
qed

lemma uart_inv_run: "uart_inv (fst s) \<Longrightarrow> uart_inv (fst (fst (uart_run s cs)))"
proof (induction cs arbitrary: s)
  case Nil
  then show ?case by simp
next
  case (Cons c cs)
  have "uart_inv (fst (fst (uart_reader_step c s)))" using Cons.prems by (rule uart_inv_step)
  then have "uart_inv (fst (fst (uart_run (fst (uart_reader_step c s)) cs)))" by (rule Cons.IH)
  then show ?case by (simp add: split_beta)
qed

lemma uart_run_index:
  assumes "length stack = INPUT_BUFFER_SIZE"
  shows "uart_inv (fst (fst (uart_run (uart_init stack) cs)))"
  using assms by (intro uart_inv_run) (simp add: uart_init_def uart_inv_def)

text \<open>
  Claim C8. Whatever characters arrive, the command buffer holds at most 9 characters
  and all of them are digits. A digit that arrives when 9 are held empties the buffer
  and the task sends the notice "Very long entry. Try again."; a character that is
  neither a digit nor CR or LF empties the buffer and the task sends the notice
  "Non numeric character."; after a CR or LF the buffer is empty.
\<close>

theorem command_buffer_bounded:
  assumes "length stack = INPUT_BUFFER_SIZE"
  shows "inputIndex (fst (fst (uart_run (uart_init stack) cs))) \<le> 9
    \<and> (\<forall>i < inputIndex (fst (fst (uart_run (uart_init stack) cs))).
          is_digit (inputBuffer (fst (fst (uart_run (uart_init stack) cs))) ! i))
    \<and> (\<forall>st w c. is_digit c \<and> 9 \<le> inputIndex st \<longrightarrow>
          uart_reader_step c (st, w)
            = ((st\<lparr>inputIndex := 0\<rparr>, w),
               [c] @ LF # ''Very long entry. Try again.'' @ [CR, LF]))
    \<and> (\<forall>st w c. \<not> is_digit c \<and> c \<noteq> CR \<and> c \<noteq> LF \<longrightarrow>
          uart_reader_step c (st, w)
            = ((st\<lparr>inputIndex := 0\<rparr>, w),
               [c] @ LF # '' Non numeric character.'' @ [CR, LF]))
    \<and> (\<forall>st w c. c = CR \<or> c = LF \<longrightarrow>
          inputIndex (fst (fst (uart_reader_step c (st, w)))) = 0)"
proof -
  have "uart_inv (fst (fst (uart_run (uart_init stack) cs)))"
    using assms by (rule uart_run_index)
  then have f1: "inputIndex (fst (fst (uart_run (uart_init stack) cs))) \<le> 9"
    and f2: "\<And>i. i < inputIndex (fst (fst (uart_run (uart_init stack) cs))) \<Longrightarrow>
          is_digit (inputBuffer (fst (fst (uart_run (uart_init stack) cs))) ! i)"
    by (simp_all add: uart_inv_def)
  have f3: "uart_reader_step c (st, w)
            = ((st\<lparr>inputIndex := 0\<rparr>, w), [c] @ LF # ''Very long entry. Try again.'' @ [CR, LF])"
    if "is_digit c \<and> 9 \<le> inputIndex st" for st w c
    using that uart_step_digit_full [of c st w] by (simp add: msg_too_long_def)
  have f4: "uart_reader_step c (st, w)
            = ((st\<lparr>inputIndex := 0\<rparr>, w), [c] @ LF # '' Non numeric character.'' @ [CR, LF])"
    if "\<not> is_digit c \<and> c \<noteq> CR \<and> c \<noteq> LF" for st w c
    using that uart_step_other [of c st w] by (simp add: msg_non_numeric_def)
  have f5: "inputIndex (fst (fst (uart_reader_step c (st, w)))) = 0"
    if "c = CR \<or> c = LF" for st w c
    using that by (rule uart_step_terminator_index)
  show ?thesis
    apply (intro conjI allI impI)
        apply (rule f1)
       apply (erule f2)
      apply (erule f3)
     apply (erule f4)
    apply (erule f5)
    done
qed

text \<open>
  The theorem for a task that has received the nine digits 1 to 9, for a tenth digit,
  for the letter a after two digits, and for CR after two digits.
\<close>

theorem command_buffer_bounded_witness:
  "inputIndex (fst (fst (uart_run (uart_init ''xxxxxxxxxx'') ''123456789''))) \<le> 9
   \<and> uart_reader_step CHR ''0'' (\<lparr>inputBuffer = ''123456789x'', inputIndex = 9\<rparr>, 5)
       = ((\<lparr>inputBuffer = ''123456789x'', inputIndex = 0\<rparr>, 5),
          ''0'' @ LF # ''Very long entry. Try again.'' @ [CR, LF])
   \<and> uart_reader_step CHR ''a'' (\<lparr>inputBuffer = ''12xxxxxxxx'', inputIndex = 2\<rparr>, 5)
       = ((\<lparr>inputBuffer = ''12xxxxxxxx'', inputIndex = 0\<rparr>, 5),
          ''a'' @ LF # '' Non numeric character.'' @ [CR, LF])
   \<and> inputIndex (fst (fst (uart_reader_step CR (\<lparr>inputBuffer = ''12xxxxxxxx'', inputIndex = 2\<rparr>, 5)))) = 0"
proof -
  have len: "length ''xxxxxxxxxx'' = INPUT_BUFFER_SIZE" by simp
  note T = command_buffer_bounded [OF len, of "''123456789''"]
  have a: "inputIndex (fst (fst (uart_run (uart_init ''xxxxxxxxxx'') ''123456789''))) \<le> 9"
    by (rule T [THEN conjunct1])
  have "is_digit CHR ''0'' \<and> 9 \<le> inputIndex \<lparr>inputBuffer = ''123456789x'', inputIndex = 9\<rparr>"
    by (simp add: is_digit_code)
  then have b: "uart_reader_step CHR ''0'' (\<lparr>inputBuffer = ''123456789x'', inputIndex = 9\<rparr>, 5)
       = ((\<lparr>inputBuffer = ''123456789x'', inputIndex = 9\<rparr>\<lparr>inputIndex := 0\<rparr>, 5),
          [CHR ''0''] @ LF # ''Very long entry. Try again.'' @ [CR, LF])"
    by (rule T [THEN conjunct2, THEN conjunct2, THEN conjunct1, rule_format])
  have "\<not> is_digit CHR ''a'' \<and> CHR ''a'' \<noteq> CR \<and> CHR ''a'' \<noteq> LF"
    by (simp add: is_digit_code)
  then have c: "uart_reader_step CHR ''a'' (\<lparr>inputBuffer = ''12xxxxxxxx'', inputIndex = 2\<rparr>, 5)
       = ((\<lparr>inputBuffer = ''12xxxxxxxx'', inputIndex = 2\<rparr>\<lparr>inputIndex := 0\<rparr>, 5),
          [CHR ''a''] @ LF # '' Non numeric character.'' @ [CR, LF])"
    by (rule T [THEN conjunct2, THEN conjunct2, THEN conjunct2, THEN conjunct1, rule_format])
  have "CR = CR \<or> CR = LF" by simp
  then have d: "inputIndex (fst (fst (uart_reader_step CR (\<lparr>inputBuffer = ''12xxxxxxxx'', inputIndex = 2\<rparr>, 5)))) = 0"
    by (rule T [THEN conjunct2, THEN conjunct2, THEN conjunct2, THEN conjunct2, rule_format])
  have b': "uart_reader_step CHR ''0'' (\<lparr>inputBuffer = ''123456789x'', inputIndex = 9\<rparr>, 5)
       = ((\<lparr>inputBuffer = ''123456789x'', inputIndex = 0\<rparr>, 5),
          ''0'' @ LF # ''Very long entry. Try again.'' @ [CR, LF])"
    using b by simp
  have c': "uart_reader_step CHR ''a'' (\<lparr>inputBuffer = ''12xxxxxxxx'', inputIndex = 2\<rparr>, 5)
       = ((\<lparr>inputBuffer = ''12xxxxxxxx'', inputIndex = 0\<rparr>, 5),
          ''a'' @ LF # '' Non numeric character.'' @ [CR, LF])"
    using c by simp
  show ?thesis
    apply (intro conjI)
       apply (rule a)
      apply (rule b')
     apply (rule c')
    apply (rule d)
    done
qed

subsection \<open>A line terminator\<close>

lemma uart_step_terminator:
  assumes t: "c = CR \<or> c = LF" and pos: "0 < inputIndex st"
  shows "uart_reader_step c (st, w) =
     (let terminated = (inputBuffer st)[inputIndex st := NUL];
          newN = stringToInt (c_string terminated)
      in if 10 \<le> newN \<and> newN \<le> 100
         then ((\<lparr>inputBuffer = terminated, inputIndex = 0\<rparr>, newN),
               [c] @ [CR, LF] @ msg_filter_now (c_string terminated))
         else ((\<lparr>inputBuffer = terminated, inputIndex = 0\<rparr>, w),
               [c] @ [CR, LF] @ msg_invalid))"
proof -
  have "\<not> is_digit c" using t digit_not_terminator [of c] by auto
  then show ?thesis using t pos
    by (simp add: uart_reader_step_def Let_def)
qed

text \<open>
  Claim C4. Let CR or LF arrive while the buffer holds between 1 and 9 characters, all
  digits. The parsed value \<open>N\<close> is the decimal value of these digits. If \<open>N\<close> is
  between 10 and 100 the task writes \<open>N\<close> to the shared window size and sends, after
  the echo and a CR LF, the text "\n Filter now N = " followed by the digits and CR LF.
  Otherwise it sends "\n Invalid N (10-100).\r\n" and the shared window size is
  unchanged. In both cases the buffer is empty afterwards.
\<close>

theorem line_terminator_applies_window:
  assumes "c = CR \<or> c = LF" and "0 < inputIndex st" and "inputIndex st \<le> 9"
    and "length (inputBuffer st) = INPUT_BUFFER_SIZE"
    and "\<forall>i<inputIndex st. is_digit (inputBuffer st ! i)"
  shows "stringToInt (take (inputIndex st) (inputBuffer st))
           = int (decimal_from 0 (take (inputIndex st) (inputBuffer st)))
    \<and> (10 \<le> stringToInt (take (inputIndex st) (inputBuffer st))
         \<and> stringToInt (take (inputIndex st) (inputBuffer st)) \<le> 100 \<longrightarrow>
        uart_reader_step c (st, w) =
          ((\<lparr>inputBuffer = (inputBuffer st)[inputIndex st := NUL], inputIndex = 0\<rparr>,
            stringToInt (take (inputIndex st) (inputBuffer st))),
           [c] @ [CR, LF] @ LF # '' Filter now N = ''
             @ take (inputIndex st) (inputBuffer st) @ [CR, LF]))
    \<and> (\<not> (10 \<le> stringToInt (take (inputIndex st) (inputBuffer st))
            \<and> stringToInt (take (inputIndex st) (inputBuffer st)) \<le> 100) \<longrightarrow>
        uart_reader_step c (st, w) =
          ((\<lparr>inputBuffer = (inputBuffer st)[inputIndex st := NUL], inputIndex = 0\<rparr>, w),
           [c] @ [CR, LF] @ LF # '' Invalid N (10-100).'' @ [CR, LF]))"
proof -
  let ?digits = "take (inputIndex st) (inputBuffer st)"
  have lt: "inputIndex st < length (inputBuffer st)" using assms(3,4) by simp
  have nonnul: "\<forall>i<inputIndex st. inputBuffer st ! i \<noteq> NUL"
    using assms(5) digit_not_terminator by blast
  have cs: "c_string ((inputBuffer st)[inputIndex st := NUL]) = ?digits"
    using lt nonnul by (rule c_string_terminated)
  have "\<forall>ch\<in>set ?digits. is_digit ch"
    using assms(5) lt by (auto simp add: in_set_conv_nth)
  moreover have "length ?digits \<le> 9" using assms(3) by simp
  ultimately have dec: "stringToInt ?digits = int (decimal_from 0 ?digits)"
    by (rule stringToInt_decimal)
  have step: "uart_reader_step c (st, w) =
      (if 10 \<le> stringToInt ?digits \<and> stringToInt ?digits \<le> 100
       then ((\<lparr>inputBuffer = (inputBuffer st)[inputIndex st := NUL], inputIndex = 0\<rparr>,
              stringToInt ?digits),
             [c] @ [CR, LF] @ msg_filter_now ?digits)
       else ((\<lparr>inputBuffer = (inputBuffer st)[inputIndex st := NUL], inputIndex = 0\<rparr>, w),
             [c] @ [CR, LF] @ msg_invalid))"
    unfolding uart_step_terminator [OF assms(1,2)] Let_def cs ..
  show ?thesis
  proof (intro conjI impI)
    show "stringToInt ?digits = int (decimal_from 0 ?digits)" by (rule dec)
  next
    assume r: "10 \<le> stringToInt ?digits \<and> stringToInt ?digits \<le> 100"
    show "uart_reader_step c (st, w) =
          ((\<lparr>inputBuffer = (inputBuffer st)[inputIndex st := NUL], inputIndex = 0\<rparr>,
            stringToInt ?digits),
           [c] @ [CR, LF] @ LF # '' Filter now N = '' @ ?digits @ [CR, LF])"
      unfolding step if_P [OF r] by (simp add: msg_filter_now_def)
  next
    assume r: "\<not> (10 \<le> stringToInt ?digits \<and> stringToInt ?digits \<le> 100)"
    show "uart_reader_step c (st, w) =
          ((\<lparr>inputBuffer = (inputBuffer st)[inputIndex st := NUL], inputIndex = 0\<rparr>, w),
           [c] @ [CR, LF] @ LF # '' Invalid N (10-100).'' @ [CR, LF])"
      unfolding step if_not_P [OF r] by (simp add: msg_invalid_def)
  qed
qed

text \<open>
  The theorem for the inputs "55" CR, accepted, and "5" CR, rejected, with the shared
  window size 5.
\<close>

theorem line_terminator_applies_window_witness:
  "uart_reader_step CR (\<lparr>inputBuffer = ''55xxxxxxxx'', inputIndex = 2\<rparr>, 5) =
     ((\<lparr>inputBuffer = [CHR ''5'', CHR ''5'', NUL] @ ''xxxxxxx'', inputIndex = 0\<rparr>, 55),
      [CR] @ [CR, LF] @ LF # '' Filter now N = 55'' @ [CR, LF])
   \<and> uart_reader_step CR (\<lparr>inputBuffer = ''5xxxxxxxxx'', inputIndex = 1\<rparr>, 5) =
     ((\<lparr>inputBuffer = [CHR ''5'', NUL] @ ''xxxxxxxx'', inputIndex = 0\<rparr>, 5),
      [CR] @ [CR, LF] @ LF # '' Invalid N (10-100).'' @ [CR, LF])"
proof -
  have v55: "stringToInt ''55'' = 55" and v5: "stringToInt ''5'' = 5"
    by (simp_all add: stringToInt_def)
  have d: "is_digit CHR ''5''" by (simp add: is_digit_code)
  have a: "uart_reader_step CR (\<lparr>inputBuffer = ''55xxxxxxxx'', inputIndex = 2\<rparr>, 5) =
     ((\<lparr>inputBuffer = [CHR ''5'', CHR ''5'', NUL] @ ''xxxxxxx'', inputIndex = 0\<rparr>, 55),
      [CR] @ [CR, LF] @ LF # '' Filter now N = 55'' @ [CR, LF])"
    using line_terminator_applies_window
      [of CR "\<lparr>inputBuffer = ''55xxxxxxxx'', inputIndex = 2\<rparr>" 5]
    by (simp add: v55 d less_Suc_eq numeral_2_eq_2)
  have b: "uart_reader_step CR (\<lparr>inputBuffer = ''5xxxxxxxxx'', inputIndex = 1\<rparr>, 5) =
     ((\<lparr>inputBuffer = [CHR ''5'', NUL] @ ''xxxxxxxx'', inputIndex = 0\<rparr>, 5),
      [CR] @ [CR, LF] @ LF # '' Invalid N (10-100).'' @ [CR, LF])"
    using line_terminator_applies_window
      [of CR "\<lparr>inputBuffer = ''5xxxxxxxxx'', inputIndex = 1\<rparr>" 5]
    by (simp add: v5 d)
  show ?thesis by (intro conjI) (rule a, rule b)
qed

subsection \<open>The shared window size\<close>

lemma window_size_ok_step:
  "window_size_ok (snd s) \<Longrightarrow> window_size_ok (snd (fst (uart_reader_step c s)))"
  by (simp add: uart_reader_step_def Let_def window_size_ok_def)

lemma window_size_ok_run:
  "window_size_ok (snd s) \<Longrightarrow> window_size_ok (snd (fst (uart_run s cs)))"
proof (induction cs arbitrary: s)
  case Nil
  then show ?case by simp
next
  case (Cons c cs)
  have "window_size_ok (snd (fst (uart_reader_step c s)))"
    using Cons.prems by (rule window_size_ok_step)
  then have "window_size_ok (snd (fst (uart_run (fst (uart_reader_step c s)) cs)))"
    by (rule Cons.IH)
  then show ?case by (simp add: split_beta)
qed

text \<open>
  Claim C10. The shared window size starts at 5, below the least accepted size 10.
  The parser is its only writer, and after any characters received it is 5 or between
  10 and 100; so it is always at least 1.
\<close>

theorem shared_window_size_values:
  "filter_window_size_init = 5
   \<and> filter_window_size_init < int MIN_WINDOW_SIZE
   \<and> snd (uart_init stack) = filter_window_size_init
   \<and> (snd (fst (uart_run (uart_init stack) cs)) = 5
       \<or> (10 \<le> snd (fst (uart_run (uart_init stack) cs))
           \<and> snd (fst (uart_run (uart_init stack) cs)) \<le> 100))
   \<and> 1 \<le> snd (fst (uart_run (uart_init stack) cs))"
proof -
  have "window_size_ok (snd (uart_init stack))"
    by (simp add: uart_init_def filter_window_size_init_def window_size_ok_def)
  then have "window_size_ok (snd (fst (uart_run (uart_init stack) cs)))"
    by (rule window_size_ok_run)
  then have ok: "snd (fst (uart_run (uart_init stack) cs)) = 5
       \<or> (10 \<le> snd (fst (uart_run (uart_init stack) cs))
           \<and> snd (fst (uart_run (uart_init stack) cs)) \<le> 100)"
    by (simp add: window_size_ok_def)
  then have "1 \<le> snd (fst (uart_run (uart_init stack) cs))" by linarith
  with ok show ?thesis
    by (simp add: filter_window_size_init_def uart_init_def)
qed

section \<open>Properties of the resource monitor\<close>

lemma replicate_numeral_Cons: "replicate (numeral k) x = x # replicate (pred_numeral k) x"
  by (simp add: numeral_eq_Suc)

text \<open>
  While a task's counter is below \<open>2 ^ 32 / 100\<close> the product does not wrap, and the
  share computed is the specification's percentage.
\<close>

lemma cpu_usage_exact:
  assumes "unat (ulRunTimeCounter task) * 100 < 2 ^ 32"
  shows "unat (cpu_usage task totalRunTime)
       = spec_cpu_percent (unat (ulRunTimeCounter task)) (unat totalRunTime)"
proof -
  have "unat (ulRunTimeCounter task * 100) = unat (ulRunTimeCounter task) * 100"
    using assms by (simp add: unat_word_ariths)
  then show ?thesis
    by (simp add: cpu_usage_def spec_cpu_percent_def unat_div word_greater_zero_iff unat_eq_0)
qed

lemma cpu_usage_total_zero: "cpu_usage task 0 = 0"
  by (simp add: cpu_usage_def)

lemma cpu_usage_half: "cpu_usage \<lparr>pcTaskName = ''IDLE'', ulRunTimeCounter = 50000000,
       usStackHighWaterMark = 40, eCurrentState = 1\<rparr> 100000000 = 7"
  by (simp add: cpu_usage_def)

lemma utoa_examples: "utoa 7 10 = ''7''" "utoa 40 10 = ''40''" "utoa 1 10 = ''1''"
  by (simp_all add: utoa_def)

lemma formatTaskStats_half:
  "formatTaskStats \<lparr>pcTaskName = ''IDLE'', ulRunTimeCounter = 50000000,
       usStackHighWaterMark = 40, eCurrentState = 1\<rparr> 100000000
     = ''Name: IDLE      | CPU: 7%   | Stack Free: 40 | State: 1'' @ [LF]"
  by (simp add: formatTaskStats_def cpu_usage_half utoa_examples Let_def replicate_numeral_Cons)

text \<open>
  Claim C9 asks for the percentage \<open>task_runtime * 100 / total_runtime\<close>. The
  product is computed in 32 bits and wraps once the task's counter reaches 42949673.
  For a task that ran 50000000 of 100000000 ticks the line reports 7 percent, and the
  percentage is 50.
\<close>

theorem cpu_percentage_wraps:
  "formatTaskStats \<lparr>pcTaskName = ''IDLE'', ulRunTimeCounter = 50000000,
       usStackHighWaterMark = 40, eCurrentState = 1\<rparr> 100000000
     = ''Name: IDLE      | CPU: 7%   | Stack Free: 40 | State: 1'' @ [LF]
   \<and> unat (cpu_usage \<lparr>pcTaskName = ''IDLE'', ulRunTimeCounter = 50000000,
       usStackHighWaterMark = 40, eCurrentState = 1\<rparr> 100000000) = 7
   \<and> spec_cpu_percent 50000000 100000000 = 50"
  by (simp add: formatTaskStats_half cpu_usage_half spec_cpu_percent_def)

section \<open>Properties of the graph renderer\<close>

subsection \<open>The shift loop\<close>

lemma shift_step_length: "length (shift_step i buf) = length buf"
  by (simp add: shift_step_def Let_def)

lemma shift_prefix:
  assumes "length buf = 192" "n \<le> 95"
  shows "length (fold shift_step [0..<n] buf) = 192
    \<and> (\<forall>j<192. fold shift_step [0..<n] buf ! j
          = (if j < n \<or> (96 \<le> j \<and> j < 96 + n) then buf ! (j + 1) else buf ! j))"
  using assms(2)
proof (induction n)
  case 0
  then show ?case using assms(1) by auto
next
  case (Suc n)
  let ?b = "fold shift_step [0..<n] buf"
  have len: "length ?b = 192"
    and old: "\<And>j. j < 192 \<Longrightarrow> ?b ! j
          = (if j < n \<or> (96 \<le> j \<and> j < 96 + n) then buf ! (j + 1) else buf ! j)"
    using Suc by simp_all
  have n: "n < 95" using Suc.prems by simp
  have step: "fold shift_step [0..<Suc n] buf = shift_step n ?b" by simp
  have a: "?b ! (n + 1) = buf ! (n + 1)" using old [of "n + 1"] n by simp
  have b: "?b ! (n + 97) = buf ! (n + 97)" using old [of "n + 97"] n by simp
  have "shift_step n ?b ! j
      = (if j < Suc n \<or> (96 \<le> j \<and> j < 96 + Suc n) then buf ! (j + 1) else buf ! j)"
    if j: "j < 192" for j
  proof -
    have "shift_step n ?b ! j
        = (if j = n + 96 then buf ! (n + 97) else if j = n then buf ! (n + 1) else ?b ! j)"
      using j n len a b
      by (simp add: shift_step_def Let_def nth_list_update add.commute)
    also have "\<dots> = (if j < Suc n \<or> (96 \<le> j \<and> j < 96 + Suc n) then buf ! (j + 1) else buf ! j)"
      using old [OF j] n by (auto simp add: less_Suc_eq ac_simps)
    finally show ?thesis .
  qed
  then show ?case
    unfolding step using len by (simp add: shift_step_length)
qed

lemma shift_left_nth:
  assumes "length buf = 192" "j < 192"
  shows "shift_left buf ! j = (if j = 95 \<or> j = 191 then buf ! j else buf ! (j + 1))"
  using shift_prefix [OF assms(1), of 95] assms(2)
  by (auto simp add: shift_left_def)

lemma shift_left_length: "length buf = 192 \<Longrightarrow> length (shift_left buf) = 192"
  using shift_prefix [of buf 95] by (simp add: shift_left_def)

subsection \<open>Setting a pixel, and the axes\<close>

lemma setPixel_on:
  assumes "x < 96" "y < 16"
  shows "setPixel (int x) (int y) True buf
     = buf[x + (y div 8) * 96 := buf ! (x + (y div 8) * 96) OR push_bit (y mod 8) 1]"
proof -
  have "int y sdiv 8 = int (y div 8)" "int y smod 8 = int (y mod 8)"
    by (simp_all add: sdiv_nonneg_eq_div smod_nonneg zdiv_int zmod_int)
  moreover have "nat (int x + int (y div 8) * 96) = x + (y div 8) * 96"
    by (simp add: nat_add_distrib nat_mult_distrib)
  ultimately show ?thesis using assms
    by (simp add: setPixel_def Let_def)
qed

lemma setPixel_length: "length (setPixel x y on buf) = length buf"
  by (simp add: setPixel_def Let_def)

lemma bit_set_u8:
  fixes w :: u8
  assumes "b < 8" "b' < 8"
  shows "bit (w OR 2 ^ b) b' \<longleftrightarrow> bit w b' \<or> b' = b"
  using assms by (auto simp add: bit_or_iff bit_exp_iff)

lemma cell_eq_iff:
  assumes "x < 96" "x' < 96"
  shows "x' + p' * 96 = x + p * 96 \<longleftrightarrow> x' = x \<and> p' = (p::nat)"
proof
  assume eq: "x' + p' * 96 = x + p * 96"
  then have "(x' + p' * 96) mod 96 = (x + p * 96) mod 96" by simp
  then have "x' = x" using assms by simp
  with eq show "x' = x \<and> p' = p" by simp
next
  assume "x' = x \<and> p' = p"
  then show "x' + p' * 96 = x + p * 96" by simp
qed

lemma row_eq_iff: "y' = y \<longleftrightarrow> y' div 8 = y div 8 \<and> y' mod 8 = (y::nat) mod 8"
  by (metis div_mult_mod_eq)

lemma pixel_setPixel:
  assumes len: "length buf = 192" and xy: "x < 96" "y < 16" and xy': "x' < 96" "y' < 16"
  shows "pixel_at (setPixel (int x) (int y) True buf) x' y'
     \<longleftrightarrow> (x' = x \<and> y' = y) \<or> pixel_at buf x' y'"
proof -
  have p: "y div 8 < 2" "y' div 8 < 2" using xy xy' by simp_all
  have i: "x + (y div 8) * 96 < length buf" using len xy p by simp
  show ?thesis
  proof (cases "x' = x \<and> y' div 8 = y div 8")
    case True
    then have "pixel_at (setPixel (int x) (int y) True buf) x' y'
        \<longleftrightarrow> bit (buf ! (x + (y div 8) * 96) OR 2 ^ (y mod 8)) (y' mod 8)"
      using i by (simp add: pixel_at_def setPixel_on [OF xy])
    also have "\<dots> \<longleftrightarrow> bit (buf ! (x + (y div 8) * 96)) (y' mod 8) \<or> y' mod 8 = y mod 8"
      by (rule bit_set_u8) simp_all
    also have "\<dots> \<longleftrightarrow> (x' = x \<and> y' = y) \<or> pixel_at buf x' y'"
      using True row_eq_iff [of y' y] by (auto simp add: pixel_at_def)
    finally show ?thesis .
  next
    case False
    then have "x' + (y' div 8) * 96 \<noteq> x + (y div 8) * 96"
      using cell_eq_iff [OF xy(1) xy'(1)] by simp
    then show ?thesis using False
      by (auto simp add: pixel_at_def setPixel_on [OF xy])
  qed
qed

lemma y_axis_pixels:
  assumes "length buf = 192" "n \<le> 16" "x' < 96" "y' < 16"
  shows "length (fold (\<lambda>i. setPixel 0 (int i) True) [0..<n] buf) = 192
    \<and> (pixel_at (fold (\<lambda>i. setPixel 0 (int i) True) [0..<n] buf) x' y'
         \<longleftrightarrow> (x' = 0 \<and> y' < n) \<or> pixel_at buf x' y')"
  using assms(2)
proof (induction n)
  case 0
  then show ?case using assms(1) by simp
next
  case (Suc n)
  let ?b = "fold (\<lambda>i. setPixel 0 (int i) True) [0..<n] buf"
  have len: "length ?b = 192" and IH: "pixel_at ?b x' y' \<longleftrightarrow> (x' = 0 \<and> y' < n) \<or> pixel_at buf x' y'"
    using Suc by simp_all
  have "pixel_at (setPixel (int 0) (int n) True ?b) x' y'
      \<longleftrightarrow> (x' = 0 \<and> y' = n) \<or> pixel_at ?b x' y'"
    using Suc.prems assms(3,4) by (intro pixel_setPixel [OF len]) simp_all
  then show ?case using len IH
    by (auto simp add: setPixel_length less_Suc_eq)
qed

lemma x_axis_pixels:
  assumes "length buf = 192" "n \<le> 96" "x' < 96" "y' < 16"
  shows "length (fold (\<lambda>i. setPixel (int i) 15 True) [0..<n] buf) = 192
    \<and> (pixel_at (fold (\<lambda>i. setPixel (int i) 15 True) [0..<n] buf) x' y'
         \<longleftrightarrow> (y' = 15 \<and> x' < n) \<or> pixel_at buf x' y')"
  using assms(2)
proof (induction n)
  case 0
  then show ?case using assms(1) by simp
next
  case (Suc n)
  let ?b = "fold (\<lambda>i. setPixel (int i) 15 True) [0..<n] buf"
  have len: "length ?b = 192" and IH: "pixel_at ?b x' y' \<longleftrightarrow> (y' = 15 \<and> x' < n) \<or> pixel_at buf x' y'"
    using Suc by simp_all
  have "pixel_at (setPixel (int n) (int 15) True ?b) x' y'
      \<longleftrightarrow> (x' = n \<and> y' = 15) \<or> pixel_at ?b x' y'"
    using Suc.prems assms(3,4) by (intro pixel_setPixel [OF len]) simp_all
  then show ?case using len IH
    by (auto simp add: setPixel_length less_Suc_eq)
qed

subsection \<open>One rendered value\<close>

lemma graph_y_range: "0 \<le> graph_y v" "graph_y v \<le> 15"
  by (simp_all add: graph_y_def Let_def)

lemma graph_row_le: "graph_row v \<le> 15"
  using graph_y_range [of v] by (simp add: graph_row_def)

lemma graph_row_int: "int (graph_row v) = 15 - graph_y v"
  using graph_y_range [of v] by (simp add: graph_row_def)

lemma cleared_pixels:
  assumes len: "length buf = 192" and xy: "x < 96" "y < 16"
  shows "pixel_at ((shift_left buf)[95 := 0, 191 := 0]) x y \<longleftrightarrow> x < 95 \<and> pixel_at buf (x + 1) y"
proof -
  have p: "y div 8 = 0 \<or> y div 8 = 1" using xy by auto
  let ?j = "x + (y div 8) * 96"
  have j: "?j < 192" using xy p by auto
  have sl: "length (shift_left buf) = 192" using len by (rule shift_left_length)
  show ?thesis
  proof (cases "x = 95")
    case True
    then have "?j = 95 \<or> ?j = 191" using p by auto
    then have "(shift_left buf)[95 := 0, 191 := 0] ! ?j = 0"
      using sl by (auto simp add: nth_list_update)
    then show ?thesis using True by (simp add: pixel_at_def)
  next
    case False
    then have x: "x < 95" using xy by simp
    then have ne: "?j \<noteq> 95" "?j \<noteq> 191" using p by auto
    then have "(shift_left buf)[95 := 0, 191 := 0] ! ?j = shift_left buf ! ?j"
      by simp
    also have "\<dots> = buf ! (?j + 1)"
      using shift_left_nth [OF len j] ne by simp
    finally show ?thesis using x by (simp add: pixel_at_def add.commute add.left_commute)
  qed
qed

lemma display_iteration_pixels:
  assumes len: "length buf = 192" and xy: "x < 96" "y < 16"
  shows "length (display_iteration v buf) = 192"
    and "pixel_at (display_iteration v buf) x y
     \<longleftrightarrow> x = 0 \<or> y = 15 \<or> (x = 95 \<and> y = graph_row v) \<or> (x < 95 \<and> pixel_at buf (x + 1) y)"
proof -
  let ?b3 = "(shift_left buf)[95 := 0, 191 := 0]"
  let ?b4 = "setPixel (int 95) (int (graph_row v)) True ?b3"
  let ?b5 = "fold (\<lambda>i. setPixel 0 (int i) True) [0..<16] ?b4"
  let ?b6 = "fold (\<lambda>i. setPixel (int i) 15 True) [0..<96] ?b5"
  have eq: "display_iteration v buf = ?b6"
    by (simp add: display_iteration_def Let_def graph_row_int)
  have l3: "length ?b3 = 192" using len by (simp add: shift_left_length)
  then have l4: "length ?b4 = 192" by (simp add: setPixel_length)
  have p3: "pixel_at ?b3 x y \<longleftrightarrow> x < 95 \<and> pixel_at buf (x + 1) y"
    using len xy by (rule cleared_pixels)
  have p4: "pixel_at ?b4 x y \<longleftrightarrow> (x = 95 \<and> y = graph_row v) \<or> pixel_at ?b3 x y"
    using graph_row_le [of v] xy by (intro pixel_setPixel [OF l3]) simp_all
  have a5: "length ?b5 = 192 \<and> (pixel_at ?b5 x y \<longleftrightarrow> (x = 0 \<and> y < 16) \<or> pixel_at ?b4 x y)"
    using l4 _ xy by (rule y_axis_pixels) simp
  then have l5: "length ?b5 = 192" and p5: "pixel_at ?b5 x y \<longleftrightarrow> x = 0 \<or> pixel_at ?b4 x y"
    using xy by simp_all
  have a6: "length ?b6 = 192 \<and> (pixel_at ?b6 x y \<longleftrightarrow> (y = 15 \<and> x < 96) \<or> pixel_at ?b5 x y)"
    using l5 _ xy by (rule x_axis_pixels) simp
  then show "length (display_iteration v buf) = 192" unfolding eq by simp
  show "pixel_at (display_iteration v buf) x y
     \<longleftrightarrow> x = 0 \<or> y = 15 \<or> (x = 95 \<and> y = graph_row v) \<or> (x < 95 \<and> pixel_at buf (x + 1) y)"
    unfolding eq using a6 p5 p4 p3 xy by auto
qed

lemma display_run_snoc: "display_run (vs @ [v]) buf = display_iteration v (display_run vs buf)"
  by (simp add: display_run_def)

lemma display_iteration_length: "length buf = 192 \<Longrightarrow> length (display_iteration v buf) = 192"
  using display_iteration_pixels(1) [of buf 0 0 v] by simp

lemma display_run_length: "length buf = 192 \<Longrightarrow> length (display_run vs buf) = 192"
  by (induction vs rule: rev_induct)
    (simp_all add: display_run_def display_iteration_length)

subsection \<open>Any number of rendered values\<close>

lemma column_shows_pixels:
  assumes len: "length buf = 192"
  shows "x < 96 \<Longrightarrow> y < 16 \<Longrightarrow>
     (x = 0 \<or> y = 15 \<or> pixel_at (display_run vs buf) x y)
       \<longleftrightarrow> (x = 0 \<or> y = 15 \<or> column_shows vs buf x y)"
proof (induction vs arbitrary: x rule: rev_induct)
  case Nil
  then show ?case by (simp add: display_run_def column_shows_def)
next
  case (snoc v vs)
  let ?B = "display_run vs buf"
  let ?N = "length vs"
  have lB: "length ?B = 192" using len by (rule display_run_length)
  have step: "pixel_at (display_run (vs @ [v]) buf) x y
     \<longleftrightarrow> x = 0 \<or> y = 15 \<or> (x = 95 \<and> y = graph_row v) \<or> (x < 95 \<and> pixel_at ?B (x + 1) y)"
    unfolding display_run_snoc using lB snoc.prems by (rule display_iteration_pixels(2))
  show ?case
  proof (cases "x = 0 \<or> y = 15")
    case True
    then show ?thesis by auto
  next
    case False
    show ?thesis
    proof (cases "x = 95")
      case True
      then show ?thesis using step False by (simp add: column_shows_def)
    next
      case x: False
      then have x95: "x < 95" using snoc.prems by simp
      then have "(x + 1 = 0 \<or> y = 15 \<or> pixel_at ?B (x + 1) y)
          \<longleftrightarrow> (x + 1 = 0 \<or> y = 15 \<or> column_shows vs buf (x + 1) y)"
        using snoc.prems by (intro snoc.IH) simp_all
      then have IH: "pixel_at ?B (x + 1) y \<longleftrightarrow> column_shows vs buf (x + 1) y"
        using False by simp
      have "column_shows (vs @ [v]) buf x y \<longleftrightarrow> column_shows vs buf (x + 1) y"
      proof (cases "94 - x < ?N")
        case True
        have c1: "95 - x < length (vs @ [v])" using True x95 by simp
        have c2: "95 - (x + 1) < ?N" using True by simp
        have i1: "length (vs @ [v]) - 1 - (95 - x) = ?N - (95 - x)" by simp
        have i2: "?N - 1 - (95 - (x + 1)) = ?N - (95 - x)" using x95 True by simp
        have i3: "?N - (95 - x) < ?N" using x95 True by simp
        have "column_shows (vs @ [v]) buf x y
            \<longleftrightarrow> y = graph_row ((vs @ [v]) ! (?N - (95 - x)))"
          unfolding column_shows_def if_P [OF c1] i1 ..
        also have "(vs @ [v]) ! (?N - (95 - x)) = vs ! (?N - (95 - x))"
          by (simp only: nth_append i3 if_True)
        also have "y = graph_row (vs ! (?N - (95 - x))) \<longleftrightarrow> column_shows vs buf (x + 1) y"
          unfolding column_shows_def if_P [OF c2] i2 ..
        finally show ?thesis .
      next
        case False
        then have c1: "\<not> 95 - x < length (vs @ [v])" using x95 by simp
        have c2: "\<not> 95 - (x + 1) < ?N" using False by simp
        have "column_shows (vs @ [v]) buf x y \<longleftrightarrow> pixel_at buf (x + length (vs @ [v])) y"
          unfolding column_shows_def if_not_P [OF c1] ..
        also have "\<dots> \<longleftrightarrow> column_shows vs buf (x + 1) y"
          unfolding column_shows_def if_not_P [OF c2] by (simp add: ac_simps)
        finally show ?thesis .
      qed
      then show ?thesis using step False x x95 IH by simp
    qed
  qed
qed

lemma display_run_pixels:
  assumes len: "length buf = 192" and ne: "vs \<noteq> []" and xy: "x < 96" "y < 16"
  shows "pixel_at (display_run vs buf) x y \<longleftrightarrow> x = 0 \<or> y = 15 \<or> column_shows vs buf x y"
proof -
  obtain vs' v where vs: "vs = vs' @ [v]" using ne by (cases vs rule: rev_cases) auto
  have lB: "length (display_run vs' buf) = 192" using len by (rule display_run_length)
  have "x = 0 \<or> y = 15 \<Longrightarrow> pixel_at (display_run vs buf) x y"
    unfolding vs display_run_snoc
    using display_iteration_pixels(2) [OF lB xy, of v] by auto
  then show ?thesis using column_shows_pixels [OF len xy, of vs] by blast
qed

subsection \<open>The height of a value\<close>

lemma sint_diff32: "sint (a - b :: c_int) = signed_take_bit 31 (sint a - sint b)"
  by (simp add: sint_word_ariths word_size)

lemma sint_mult32: "sint (a * b :: c_int) = signed_take_bit 31 (sint a * sint b)"
  by (simp add: sint_word_ariths word_size)

lemma sint_scaled:
  assumes "- 143165561 \<le> sint v" "sint v \<le> 143165591"
  shows "sint ((v - 15) * 15 :: c_int) = (sint v - 15) * 15"
proof -
  have f: "sint (15 :: c_int) = 15" by simp
  have "signed_take_bit 31 (sint v - 15) = sint v - 15"
    using assms by (intro signed_take_bit_int_eq_self) simp_all
  then have a: "sint (v - 15) = sint v - 15"
    unfolding sint_diff32 [of v 15] f .
  have "signed_take_bit 31 ((sint v - 15) * 15) = (sint v - 15) * 15"
    using assms by (intro signed_take_bit_int_eq_self) simp_all
  then show ?thesis
    unfolding sint_mult32 [of "v - 15" 15] f a .
qed

lemma clamp_sdiv_div:
  "max 0 (min 15 (a sdiv 20)) = max 0 (min (15::int) (a div 20))"
proof (cases "0 \<le> a")
  case True
  then show ?thesis by (simp add: sdiv_nonneg_eq_div)
next
  case False
  then have "a sdiv 20 \<le> 0" "a div 20 < 0"
    by (simp_all add: signed_divide_int_def sgn_if)
  then show ?thesis by simp
qed

lemma graph_y_clamp:
  assumes "- 143165561 \<le> sint v" "sint v \<le> 143165591"
  shows "graph_y v = max 0 (min 15 ((sint v - 15) * 15 sdiv 20))"
proof -
  have "word_of_int 15 = (15 :: c_int)" by simp
  then have s: "sint ((v - word_of_int 15) * word_of_int 15 :: c_int) = (sint v - 15) * 15"
    using sint_scaled [OF assms] by (simp only:)
  show ?thesis
    unfolding graph_y_def Let_def s by (simp add: max_def min_def)
qed

subsection \<open>The scrolling graph\<close>

lemma graph_row_examples: "graph_row 35 = 0" "graph_row 15 = 15"
  by (simp_all add: graph_row_def graph_y_def signed_divide_int_def)

lemma display_init_length: "length display_init = 192"
  by (simp add: display_init_def)

lemma scrolled_out_pixels:
  assumes len: "length buf = 192" "length buf' = 192" and N: "95 \<le> length vs"
    and xy: "x < 96" "y < 16"
  shows "pixel_at (display_run (old @ vs) buf) x y = pixel_at (display_run vs buf') x y"
proof (cases "x = 0")
  case True
  have "vs \<noteq> []" "old @ vs \<noteq> []" using N by auto
  then show ?thesis
    using True display_run_pixels [OF len(1) _ xy, of "old @ vs"]
      display_run_pixels [OF len(2) _ xy, of vs] by simp
next
  case False
  let ?N = "length vs"
  let ?j = "?N - 1 - (95 - x)"
  have ne: "vs \<noteq> []" "old @ vs \<noteq> []" using N by auto
  have c1: "95 - x < length (old @ vs)" and c2: "95 - x < ?N" using N False by simp_all
  have i: "length (old @ vs) - 1 - (95 - x) = length old + ?j" using N False by simp
  have "column_shows (old @ vs) buf x y \<longleftrightarrow> y = graph_row ((old @ vs) ! (length old + ?j))"
    unfolding column_shows_def if_P [OF c1] i ..
  also have "(old @ vs) ! (length old + ?j) = vs ! ?j" by simp
  also have "y = graph_row (vs ! ?j) \<longleftrightarrow> column_shows vs buf' x y"
    unfolding column_shows_def if_P [OF c2] ..
  finally show ?thesis
    using display_run_pixels [OF len(1) ne(2) xy] display_run_pixels [OF len(2) ne(1) xy]
    by simp
qed

text \<open>
  Claim C5, amended. For a value \<open>v\<close> the height \<open>y\<close> is between 0 and 15, and
  for \<open>v\<close> between -143165561 and 143165591, where \<open>(v - 15) * 15\<close> stays in the
  32-bit range, it is \<open>(v - 15) * 15 / 20\<close> clamped to 0 and 15, with C's division or
  with the floor alike. One iteration shifts every column one position to the left,
  clears the rightmost column, sets its pixel in row \<open>15 - y\<close> and draws the axes:
  column 0 and row 15 are lit, column 95 holds the mark of \<open>v\<close>, and every other
  pixel is the pixel to its right in the bitmap before. After \<open>N \<ge> 1\<close> iterations
  column 0 and row 15 are lit in the bitmap, and apart from them column \<open>95 - k\<close>
  holds exactly the mark of the value rendered \<open>k\<close> iterations before the last one,
  for \<open>k\<close> below \<open>N\<close> and at most 94; the columns further left hold what the bitmap
  before held \<open>N\<close> columns to their right. So the rightmost column shows the last
  value, the value rendered 16 iterations before the last one is still shown, in
  column 79, and once 95 values are rendered no pixel depends on the earlier values or
  on the bitmap before.
\<close>

theorem scrolling_graph_columns:
  assumes "length buf = 192" and "vs \<noteq> []" and "x < 96" and "y < 16"
  shows "(pixel_at (display_iteration v buf) x y
            \<longleftrightarrow> x = 0 \<or> y = 15 \<or> (x = 95 \<and> y = graph_row v) \<or> (x < 95 \<and> pixel_at buf (x + 1) y))
    \<and> int (graph_row v) = 15 - graph_y v \<and> 0 \<le> graph_y v \<and> graph_y v \<le> 15
    \<and> (- 143165561 \<le> sint v \<and> sint v \<le> 143165591 \<longrightarrow>
          graph_y v = max 0 (min 15 ((sint v - 15) * 15 sdiv 20))
          \<and> graph_y v = max 0 (min 15 ((sint v - 15) * 15 div 20)))
    \<and> (pixel_at (display_run vs buf) x y
          \<longleftrightarrow> x = 0 \<or> y = 15
              \<or> (if 95 - x < length vs then y = graph_row (vs ! (length vs - 1 - (95 - x)))
                  else pixel_at buf (x + length vs) y))
    \<and> (pixel_at (display_run vs buf) 95 y \<longleftrightarrow> y = 15 \<or> y = graph_row (last vs))
    \<and> (16 < length vs \<longrightarrow>
          (pixel_at (display_run vs buf) 79 y
             \<longleftrightarrow> y = 15 \<or> y = graph_row (vs ! (length vs - 17))))
    \<and> (95 \<le> length vs \<and> length buf' = 192 \<longrightarrow>
          pixel_at (display_run (old @ vs) buf) x y = pixel_at (display_run vs buf') x y)"
proof -
  note len = assms(1) and ne = assms(2) and xy = assms(3,4)
  have one: "pixel_at (display_iteration v buf) x y
      \<longleftrightarrow> x = 0 \<or> y = 15 \<or> (x = 95 \<and> y = graph_row v) \<or> (x < 95 \<and> pixel_at buf (x + 1) y)"
    using len xy by (rule display_iteration_pixels(2))
  have formula: "graph_y v = max 0 (min 15 ((sint v - 15) * 15 sdiv 20))
      \<and> graph_y v = max 0 (min 15 ((sint v - 15) * 15 div 20))"
    if "- 143165561 \<le> sint v \<and> sint v \<le> 143165591"
    using that graph_y_clamp [of v] clamp_sdiv_div [of "(sint v - 15) * 15"] by simp
  have run: "pixel_at (display_run vs buf) x y
      \<longleftrightarrow> x = 0 \<or> y = 15
          \<or> (if 95 - x < length vs then y = graph_row (vs ! (length vs - 1 - (95 - x)))
              else pixel_at buf (x + length vs) y)"
    using display_run_pixels [OF len ne xy] by (simp only: column_shows_def)
  have "pixel_at (display_run vs buf) 95 y \<longleftrightarrow> 95 = (0::nat) \<or> y = 15 \<or> column_shows vs buf 95 y"
    using len ne _ xy(2) by (rule display_run_pixels) simp
  then have right: "pixel_at (display_run vs buf) 95 y \<longleftrightarrow> y = 15 \<or> y = graph_row (last vs)"
    using ne by (simp add: column_shows_def last_conv_nth)
  have "pixel_at (display_run vs buf) 79 y \<longleftrightarrow> 79 = (0::nat) \<or> y = 15 \<or> column_shows vs buf 79 y"
    using len ne _ xy(2) by (rule display_run_pixels) simp
  then have col79: "pixel_at (display_run vs buf) 79 y
      \<longleftrightarrow> y = 15 \<or> y = graph_row (vs ! (length vs - 17))"
    if "16 < length vs"
    using that by (simp add: column_shows_def)
  have out: "pixel_at (display_run (old @ vs) buf) x y = pixel_at (display_run vs buf') x y"
    if "95 \<le> length vs \<and> length buf' = 192"
    using that scrolled_out_pixels [OF len _ _ xy, of buf' vs old] by simp
  show ?thesis
    apply (intro conjI impI)
            apply (rule one)
           apply (rule graph_row_int)
          apply (rule graph_y_range(1))
         apply (rule graph_y_range(2))
        apply (erule formula [THEN conjunct1])
       apply (erule formula [THEN conjunct2])
      apply (rule run)
     apply (rule right)
     apply (erule col79)
    apply (erule out)
    done
qed

text \<open>
  The theorem for the values 35 and 15 rendered on the empty bitmap: column 94 holds the
  mark of 35 in row 0 and no pixel in row 1.
\<close>

theorem scrolling_graph_columns_witness:
  "pixel_at (display_run [35, 15] display_init) 94 0
   \<and> \<not> pixel_at (display_run [35, 15] display_init) 94 1"
proof -
  have ne: "[35, 15 :: c_int] \<noteq> []" by simp
  have x: "(94::nat) < 96" and y0: "(0::nat) < 16" and y1: "(1::nat) < 16" by simp_all
  note T0 = scrolling_graph_columns [OF display_init_length ne x y0]
  note T1 = scrolling_graph_columns [OF display_init_length ne x y1]
  have a: "pixel_at (display_run [35, 15] display_init) 94 0
      \<longleftrightarrow> (94::nat) = 0 \<or> (0::nat) = 15
          \<or> (if 95 - 94 < length [35, 15 :: c_int]
              then 0 = graph_row ([35, 15] ! (length [35, 15 :: c_int] - 1 - (95 - 94)))
              else pixel_at display_init (94 + length [35, 15 :: c_int]) 0)"
    by (rule T0 [THEN conjunct2, THEN conjunct2, THEN conjunct2, THEN conjunct2,
          THEN conjunct2, THEN conjunct1])
  have b: "pixel_at (display_run [35, 15] display_init) 94 1
      \<longleftrightarrow> (94::nat) = 0 \<or> (1::nat) = 15
          \<or> (if 95 - 94 < length [35, 15 :: c_int]
              then 1 = graph_row ([35, 15] ! (length [35, 15 :: c_int] - 1 - (95 - 94)))
              else pixel_at display_init (94 + length [35, 15 :: c_int]) 1)"
    by (rule T1 [THEN conjunct2, THEN conjunct2, THEN conjunct2, THEN conjunct2,
          THEN conjunct2, THEN conjunct1])
  show ?thesis
    unfolding a b by (simp add: graph_row_examples)
qed

text \<open>
  Claim C5 as stated fails in two places. The value rendered 16 iterations before the
  last one has not left the bitmap: two runs of 17 values that differ in the first
  value only give bitmaps that differ in column 79. And for the value 143165592 the
  product \<open>(v - 15) * 15\<close> wraps to a negative number, so the height is 0 where the
  clamped quotient is 15.
\<close>

theorem scroll_depth_counterexample:
  "pixel_at (display_run (35 # replicate 16 15) display_init) 79 0
   \<and> \<not> pixel_at (display_run (15 # replicate 16 15) display_init) 79 0
   \<and> graph_y 143165592 = 0
   \<and> max 0 (min 15 ((sint (143165592 :: c_int) - 15) * 15 div 20)) = (15::int)"
proof -
  have a: "pixel_at (display_run (35 # replicate 16 15) display_init) 79 0
      \<longleftrightarrow> column_shows (35 # replicate 16 15) display_init 79 0"
    using display_run_pixels [OF display_init_length, of "35 # replicate 16 15" 79 0] by simp
  have b: "pixel_at (display_run (15 # replicate 16 15) display_init) 79 0
      \<longleftrightarrow> column_shows (15 # replicate 16 15) display_init 79 0"
    using display_run_pixels [OF display_init_length, of "15 # replicate 16 15" 79 0] by simp
  have c: "graph_y 143165592 = 0"
    by (simp add: graph_y_def signed_divide_int_def)
  show ?thesis
    unfolding a b by (simp add: column_shows_def graph_row_examples c)
qed

end
